theory Spec2Isabelle
  imports Complex_Main "HOL-Library.Multiset"
begin

section \<open>The retrieval core of \<^verbatim>\<open>VectorStore\<close>\<close>

text \<open>
  The class \<^verbatim>\<open>VectorStore\<close> owns one field, \<^verbatim>\<open>store: VectorStoreEntry[]\<close>, and has
  four methods: \<^verbatim>\<open>chunkText\<close>, \<^verbatim>\<open>cosineSimilarity\<close>, \<^verbatim>\<open>create\<close> and \<^verbatim>\<open>search\<close>.
  A JavaScript string is a sequence of UTF-16 code units; one \<^typ>\<open>char\<close> of the model
  stands for one code unit, so \<^term>\<open>length\<close> is \<^verbatim>\<open>text.length\<close>.
\<close>

subsection \<open>The chunker\<close>

text \<open>
  \<^verbatim>\<open>text.slice(i, end)\<close> for integers \<open>0 \<le> i\<close> and \<open>0 \<le> end\<close>: both are clamped to the
  length, and the result is empty when \<open>end \<le> i\<close>.
\<close>

definition slice :: "'a list \<Rightarrow> nat \<Rightarrow> nat \<Rightarrow> 'a list" where
  "slice xs i end = take (min end (length xs) - min i (length xs)) (drop i xs)"

text \<open>
  The \<^verbatim>\<open>while\<close> loop of \<^verbatim>\<open>chunkText\<close>, with its two variables \<open>i\<close> and \<open>chunks\<close>.
  The loop does not return when \<open>chunkSize \<le> overlap\<close> and the first window does not
  reach the end of the text, so the result is an option and \<open>None\<close> is "never returns".
  \<open>chunkSize\<close> and \<open>overlap\<close> are natural numbers; for \<open>overlap > chunkSize\<close> the
  truncated difference \<open>0\<close> stands for a negative stride, under which the loop does not
  return either.
\<close>

partial_function (option) chunkText_loop ::
  "string \<Rightarrow> nat \<Rightarrow> nat \<Rightarrow> nat \<Rightarrow> string list \<Rightarrow> string list option" where
  "chunkText_loop text chunkSize overlap i chunks =
     (if i < length text then
        (let end = min (i + chunkSize) (length text);
             chunks' = chunks @ [slice text i end];
             i' = i + (chunkSize - overlap)
         in if end = length text then Some chunks'
            else chunkText_loop text chunkSize overlap i' chunks')
      else Some chunks)"

definition chunkText :: "string \<Rightarrow> nat \<Rightarrow> nat \<Rightarrow> string list option" where
  "chunkText text chunkSize overlap = chunkText_loop text chunkSize overlap 0 []"

text \<open>
  The window sequence in the specification's words: window \<open>k\<close> starts at offset
  \<open>k * (chunkSize - overlap)\<close> and spans \<open>min chunkSize (remaining length)\<close> characters;
  the sequence ends with the first window that reaches the end of the text, and no
  empty window is emitted (the empty text has no window).
\<close>

definition window :: "string \<Rightarrow> nat \<Rightarrow> nat \<Rightarrow> nat \<Rightarrow> string" where
  "window text chunkSize overlap k =
     take (min chunkSize (length text - k * (chunkSize - overlap)))
          (drop (k * (chunkSize - overlap)) text)"

definition reaches_end :: "string \<Rightarrow> nat \<Rightarrow> nat \<Rightarrow> nat \<Rightarrow> bool" where
  "reaches_end text chunkSize overlap k \<longleftrightarrow>
     length text \<le> k * (chunkSize - overlap) + chunkSize"

definition last_window :: "string \<Rightarrow> nat \<Rightarrow> nat \<Rightarrow> nat" where
  "last_window text chunkSize overlap =
     length (takeWhile (\<lambda>k. \<not> reaches_end text chunkSize overlap k) [0..<length text])"

definition reference_windows :: "string \<Rightarrow> nat \<Rightarrow> nat \<Rightarrow> string list" where
  "reference_windows text chunkSize overlap =
     (if text = [] then []
      else map (window text chunkSize overlap)
               [0..<Suc (last_window text chunkSize overlap)])"

subsection \<open>JavaScript numbers\<close>

text \<open>
  A JavaScript number is an IEEE-754 double: a finite value, an infinity or \<open>NaN\<close>. A
  finite double is modelled by its real value, and every arithmetic operation returns
  the exact result rounded to the nearest double, ties to the even significand
  (\<open>fl\<close>). \<open>rne\<close> rounds a real to the nearest integer, ties to even. The binade
  of \<open>x\<close> is the exponent \<open>e\<close> with \<open>2\<^sup>e \<le> \<bar>x\<bar> < 2\<^sup>e\<^sup>+\<^sup>1\<close>, and \<open>- 1022\<close> for the subnormal
  range; the doubles of a binade are the multiples of its quantum \<open>2\<^sup>e\<^sup>-\<^sup>5\<^sup>2\<close>. A result
  that rounds to \<open>2\<^sup>1\<^sup>0\<^sup>2\<^sup>4\<close> or beyond is an infinity. The two zeros are one value,
  \<open>Num 0\<close>: the sign of a zero is observable only through a division by it, which
  \<^verbatim>\<open>VectorStore\<close> never performs.
\<close>

datatype jsnum = Num real | PosInf | NegInf | NaN

definition rne :: "real \<Rightarrow> int" where
  "rne x = (if x - of_int \<lfloor>x\<rfloor> < 1 / 2 then \<lfloor>x\<rfloor>
            else if 1 / 2 < x - of_int \<lfloor>x\<rfloor> then \<lfloor>x\<rfloor> + 1
            else if even \<lfloor>x\<rfloor> then \<lfloor>x\<rfloor> else \<lfloor>x\<rfloor> + 1)"

definition binade :: "real \<Rightarrow> int" where
  "binade x = max \<lfloor>log 2 \<bar>x\<bar>\<rfloor> (- 1022)"

definition quantum :: "real \<Rightarrow> real" where
  "quantum x = 2 powi (binade x - 52)"

definition nearest :: "real \<Rightarrow> real" where
  "nearest x = (if x = 0 then 0 else quantum x * of_int (rne (x / quantum x)))"

definition fl :: "real \<Rightarrow> jsnum" where
  "fl x = (if 2 ^ 1024 \<le> nearest x then PosInf
           else if nearest x \<le> - (2 ^ 1024) then NegInf
           else Num (nearest x))"

text \<open>\<^verbatim>\<open>Number.MIN_VALUE\<close>, the smallest positive double: every finite double is a multiple of it.\<close>

definition MIN_VALUE :: real where
  "MIN_VALUE = 2 powi (- 1074)"

definition on_grid :: "real \<Rightarrow> bool" where
  "on_grid r \<longleftrightarrow> (\<exists>j::int. r = of_int j * MIN_VALUE)"

fun js_sgn :: "jsnum \<Rightarrow> real" where
  "js_sgn (Num x) = sgn x"
| "js_sgn PosInf = 1"
| "js_sgn NegInf = - 1"
| "js_sgn NaN = 0"

definition inf_of_sign :: "real \<Rightarrow> jsnum" where
  "inf_of_sign s = (if s = 0 then NaN else if 0 < s then PosInf else NegInf)"

fun js_neg :: "jsnum \<Rightarrow> jsnum" where
  "js_neg (Num x) = Num (- x)"
| "js_neg PosInf = NegInf"
| "js_neg NegInf = PosInf"
| "js_neg NaN = NaN"

fun js_add :: "jsnum \<Rightarrow> jsnum \<Rightarrow> jsnum" where
  "js_add (Num x) (Num y) = fl (x + y)"
| "js_add NaN _ = NaN"
| "js_add _ NaN = NaN"
| "js_add PosInf NegInf = NaN"
| "js_add NegInf PosInf = NaN"
| "js_add PosInf _ = PosInf"
| "js_add _ PosInf = PosInf"
| "js_add NegInf _ = NegInf"
| "js_add _ NegInf = NegInf"

definition js_sub :: "jsnum \<Rightarrow> jsnum \<Rightarrow> jsnum" where
  "js_sub a b = js_add a (js_neg b)"

fun js_mul :: "jsnum \<Rightarrow> jsnum \<Rightarrow> jsnum" where
  "js_mul (Num x) (Num y) = fl (x * y)"
| "js_mul NaN _ = NaN"
| "js_mul _ NaN = NaN"
| "js_mul a b = inf_of_sign (js_sgn a * js_sgn b)"

fun js_div :: "jsnum \<Rightarrow> jsnum \<Rightarrow> jsnum" where
  "js_div (Num x) (Num y) = (if y = 0 then inf_of_sign (sgn x) else fl (x / y))"
| "js_div NaN _ = NaN"
| "js_div _ NaN = NaN"
| "js_div (Num x) _ = Num 0"
| "js_div a (Num y) = inf_of_sign (js_sgn a * (if y < 0 then - 1 else 1))"
| "js_div _ _ = NaN"

fun js_sqrt :: "jsnum \<Rightarrow> jsnum" where
  "js_sqrt (Num x) = (if x < 0 then NaN else fl (sqrt x))"
| "js_sqrt PosInf = PosInf"
| "js_sqrt NegInf = NaN"
| "js_sqrt NaN = NaN"

text \<open>
  \<^verbatim>\<open>Math.round\<close> returns the integer nearest to its argument, the larger one at a tie;
  no rounding of the sum is involved.
\<close>

fun js_round :: "jsnum \<Rightarrow> jsnum" where
  "js_round (Num x) = Num (of_int \<lfloor>x + 1 / 2\<rfloor>)"
| "js_round PosInf = PosInf"
| "js_round NegInf = NegInf"
| "js_round NaN = NaN"

text \<open>The order of the numbers; \<open>NaN\<close> is below and above nothing.\<close>

fun js_less :: "jsnum \<Rightarrow> jsnum \<Rightarrow> bool" where
  "js_less (Num x) (Num y) = (x < y)"
| "js_less NaN _ = False"
| "js_less _ NaN = False"
| "js_less PosInf _ = False"
| "js_less _ PosInf = True"
| "js_less _ NegInf = False"
| "js_less NegInf _ = True"

definition js_le :: "jsnum \<Rightarrow> jsnum \<Rightarrow> bool" where
  "js_le a b \<longleftrightarrow> a \<noteq> NaN \<and> b \<noteq> NaN \<and> \<not> js_less b a"

text \<open>A double, as opposed to a \<open>Num\<close> of a real that no double has.\<close>

fun is_double :: "jsnum \<Rightarrow> bool" where
  "is_double (Num x) = on_grid x"
| "is_double _ = True"

subsection \<open>Cosine similarity\<close>

type_synonym vec = "jsnum list"

text \<open>\<^verbatim>\<open>v[i]\<close> as an operand of arithmetic: an index out of range reads \<^verbatim>\<open>undefined\<close>.\<close>

definition component :: "vec \<Rightarrow> nat \<Rightarrow> jsnum" where
  "component v i = (if i < length v then v ! i else NaN)"

text \<open>
  The \<^verbatim>\<open>for\<close> loop runs over the indices of \<open>vecA\<close> only, with the three accumulators
  \<open>dotProduct\<close>, \<open>normA\<close> and \<open>normB\<close>.
\<close>

definition cosineSimilarity :: "vec \<Rightarrow> vec \<Rightarrow> jsnum" where
  "cosineSimilarity vecA vecB =
     (let (dotProduct, normA, normB) =
        fold (\<lambda>i (dotProduct, normA, normB).
                (js_add dotProduct (js_mul (component vecA i) (component vecB i)),
                 js_add normA (js_mul (component vecA i) (component vecA i)),
                 js_add normB (js_mul (component vecB i) (component vecB i))))
             [0..<length vecA] (Num 0, Num 0, Num 0)
      in if normA = Num 0 \<or> normB = Num 0 then Num 0
         else js_div dotProduct (js_mul (js_sqrt normA) (js_sqrt normB)))"

text \<open>
  The sum of products as the loop accumulates it, left to right in double
  arithmetic.
\<close>

definition fdot :: "vec \<Rightarrow> vec \<Rightarrow> jsnum" where
  "fdot a b = foldl (\<lambda>acc (x, y). js_add acc (js_mul x y)) (Num 0) (zip a b)"




definition tiny :: real where
  "tiny = 2 powi (- 600)"

text \<open>The specification's cosine similarity, in exact arithmetic on real vectors.\<close>

definition dot :: "real list \<Rightarrow> real list \<Rightarrow> real" where
  "dot a b = sum_list (map2 (*) a b)"

definition vnorm :: "real list \<Rightarrow> real" where
  "vnorm a = sqrt (dot a a)"

definition cosine :: "real list \<Rightarrow> real list \<Rightarrow> real" where
  "cosine a b = (if vnorm a = 0 \<or> vnorm b = 0 then 0 else dot a b / (vnorm a * vnorm b))"

subsection \<open>The embedding collaborator and the store\<close>

text \<open>
  An awaited promise either resolves with a value or rejects. The embedding function
  is a remote call: it is run against a world \<open>'w\<close> (the state of the collaborator,
  for instance a call counter) and returns the settled promise and the new world.
  Calls take effect in the order in which they are issued.
\<close>

datatype 'a promise = Resolved 'a | Rejected

type_synonym 'w EmbeddingFunction = "string \<Rightarrow> 'w \<Rightarrow> vec promise \<times> 'w"

record VectorStoreEntry =
  chunk :: string
  embedding :: vec

record progress =
  stage :: string
  percentage :: jsnum

definition batchSize :: nat where
  "batchSize = 5"

text \<open>The decimal rendering of a count inside the template string of \<open>stage\<close>.\<close>

function show_nat :: "nat \<Rightarrow> string" where
  "show_nat n = (if n < 10 then [char_of (48 + n)]
                 else show_nat (n div 10) @ [char_of (48 + n mod 10)])"
  by pat_completeness auto
termination
  by (relation "measure id") auto

declare show_nat.simps [simp del]

text \<open>
  \<^verbatim>\<open>batchChunks.map(chunk => embeddingFn(chunk))\<close> issues every call of the batch, in
  order; \<^verbatim>\<open>Promise.all\<close> resolves with all the values when every promise resolves and
  rejects when one rejects.
\<close>

fun issue_calls :: "'w EmbeddingFunction \<Rightarrow> string list \<Rightarrow> 'w \<Rightarrow> vec promise list \<times> 'w" where
  "issue_calls embeddingFn [] w = ([], w)"
| "issue_calls embeddingFn (c # cs) w =
     (let (p, w1) = embeddingFn c w;
          (ps, w2) = issue_calls embeddingFn cs w1
      in (p # ps, w2))"

fun promise_all :: "'a promise list \<Rightarrow> 'a list promise" where
  "promise_all [] = Resolved []"
| "promise_all (Rejected # ps) = Rejected"
| "promise_all (Resolved v # ps) =
     (case promise_all ps of Rejected \<Rightarrow> Rejected | Resolved vs \<Rightarrow> Resolved (v # vs))"

text \<open>
  The batch loop of \<^verbatim>\<open>create\<close>. Its state is the loop index \<open>i\<close>, the field
  \<open>this.store\<close>, the world of the embedding collaborator and the list of the values
  \<open>onProgress\<close> has been called with; \<open>onProgress\<close> is \<open>True\<close> when the optional
  callback is supplied. A rejected batch leaves the loop at once, with the state as it
  is at that moment. The two counts of the percentage are array lengths, which are
  doubles as they are.
\<close>

function create_loop ::
  "'w EmbeddingFunction \<Rightarrow> bool \<Rightarrow> string list \<Rightarrow> nat \<Rightarrow> VectorStoreEntry list \<Rightarrow> 'w \<Rightarrow>
   progress list \<Rightarrow> unit promise \<times> VectorStoreEntry list \<times> 'w \<times> progress list" where
  "create_loop embeddingFn onProgress chunks i store w events =
     (if i < length chunks then
        (let batchChunks = slice chunks i (i + batchSize);
             (promises, w') = issue_calls embeddingFn batchChunks w
         in case promise_all promises of
              Rejected \<Rightarrow> (Rejected, store, w', events)
            | Resolved batchEmbeddings \<Rightarrow>
                (let store' = store @
                       map (\<lambda>index. \<lparr>chunk = batchChunks ! index,
                                     embedding = batchEmbeddings ! index\<rparr>)
                           [0..<length batchChunks];
                     processedCount = min (i + batchSize) (length chunks);
                     percentage =
                       js_round (js_mul (js_div (Num (real processedCount))
                                                (Num (real (length chunks))))
                                        (Num 100));
                     events' =
                       (if onProgress then
                          events @
                          [\<lparr>stage = ''Embedding content... ('' @ show_nat processedCount @
                                     ''/'' @ show_nat (length chunks) @ '')'',
                            percentage = percentage\<rparr>]
                        else events)
                 in create_loop embeddingFn onProgress chunks (i + batchSize) store' w' events'))
      else (Resolved (), store, w, events))"
  by pat_completeness auto
termination
  by (relation "measure (\<lambda>(embeddingFn, onProgress, chunks, i, store, w, events). length chunks - i)")
     (auto simp: batchSize_def)

declare create_loop.simps [simp del]

text \<open>
  \<^verbatim>\<open>create\<close> takes the store as it is before the call and discards it
  (\<^verbatim>\<open>this.store = []\<close>). The result is \<open>None\<close> when the chunker does not return.
\<close>

definition create ::
  "VectorStoreEntry list \<Rightarrow> string \<Rightarrow> 'w EmbeddingFunction \<Rightarrow> bool \<Rightarrow> 'w \<Rightarrow>
   (unit promise \<times> VectorStoreEntry list \<times> 'w \<times> progress list) option" where
  "create this_store text embeddingFn onProgress w =
     (case chunkText text 1000 200 of
        None \<Rightarrow> None
      | Some chunks \<Rightarrow> Some (create_loop embeddingFn onProgress chunks 0 [] w []))"

subsection \<open>Search\<close>

text \<open>
  \<^verbatim>\<open>Array.prototype.sort\<close> with a comparator is a stable sort: \<open>a\<close> stays before \<open>b\<close>
  unless the comparator is positive on \<open>(a, b)\<close>; a \<open>NaN\<close> from the comparator counts as
  zero. For a consistent comparator every stable sort returns the same array, so the
  built-in is modelled by stable insertion. The comparator of \<^verbatim>\<open>search\<close> is consistent
  when no score is \<open>NaN\<close>; with a \<open>NaN\<close> score the order the engine returns depends on
  its algorithm, and the facts about the ranking assume that no score is \<open>NaN\<close>.
\<close>

fun js_positive :: "jsnum \<Rightarrow> bool" where
  "js_positive (Num x) = (0 < x)"
| "js_positive PosInf = True"
| "js_positive NegInf = False"
| "js_positive NaN = False"

fun insort_by :: "('a \<Rightarrow> 'a \<Rightarrow> jsnum) \<Rightarrow> 'a \<Rightarrow> 'a list \<Rightarrow> 'a list" where
  "insort_by cmp x [] = [x]"
| "insort_by cmp x (y # ys) =
     (if js_positive (cmp x y) then y # insort_by cmp x ys else x # y # ys)"

definition sort_js :: "('a \<Rightarrow> 'a \<Rightarrow> jsnum) \<Rightarrow> 'a list \<Rightarrow> 'a list" where
  "sort_js cmp xs = foldr (insort_by cmp) xs []"

text \<open>\<^verbatim>\<open>xs.slice(0, k)\<close> for an integer \<open>k\<close>: a negative \<open>k\<close> counts from the end.\<close>

definition slice_to :: "'a list \<Rightarrow> int \<Rightarrow> 'a list" where
  "slice_to xs k = (if k < 0 then take (nat (int (length xs) + k)) xs else take (nat k) xs)"

definition search ::
  "VectorStoreEntry list \<Rightarrow> string \<Rightarrow> 'w EmbeddingFunction \<Rightarrow> int \<Rightarrow> 'w \<Rightarrow>
   string list promise \<times> 'w" where
  "search store query embeddingFn topK w =
     (if length store = 0 then (Resolved [], w)
      else case embeddingFn query w of
             (Rejected, w') \<Rightarrow> (Rejected, w')
           | (Resolved queryEmbedding, w') \<Rightarrow>
               (let similarities =
                      map (\<lambda>entry. (chunk entry,
                                     cosineSimilarity queryEmbedding (embedding entry)))
                          store;
                    ranked = sort_js (\<lambda>a b. js_sub (snd b) (snd a)) similarities
                in (Resolved (map fst (slice_to ranked topK)), w')))"

text \<open>
  The ranking on the indices of the store: by descending score, the score of an entry
  being the double that \<open>cosineSimilarity\<close> returns for it, ties in insertion order.
\<close>

definition score :: "vec \<Rightarrow> VectorStoreEntry list \<Rightarrow> nat \<Rightarrow> jsnum" where
  "score q store i = cosineSimilarity q (embedding (store ! i))"

definition outranks :: "vec \<Rightarrow> VectorStoreEntry list \<Rightarrow> nat \<Rightarrow> nat \<Rightarrow> bool" where
  "outranks q store i j \<longleftrightarrow>
     js_less (score q store j) (score q store i)
     \<or> (score q store i = score q store j \<and> i < j)"

text \<open>
  An order-preserving map of the numbers other than \<open>NaN\<close> into the reals, by which
  a list of scores is compared as a list of reals.
\<close>

fun js_key :: "jsnum \<Rightarrow> real" where
  "js_key (Num x) = arctan x"
| "js_key PosInf = 2"
| "js_key NegInf = - 2"
| "js_key NaN = 3"

definition ranking :: "vec \<Rightarrow> VectorStoreEntry list \<Rightarrow> nat list" where
  "ranking q store =
     sort_js (\<lambda>i j. js_sub (cosineSimilarity q (embedding (store ! j)))
                          (cosineSimilarity q (embedding (store ! i))))
             [0..<length store]"

subsection \<open>Progress reports\<close>

text \<open>
  The value \<open>onProgress\<close> receives after a batch that brings the number of processed
  chunks to \<open>processedCount\<close>, and the reports of a whole run over \<open>n\<close> chunks in the
  specification's words: one per batch, the \<open>k\<close>-th with \<open>processedCount = min (5 * k) n\<close>.
\<close>

definition progress_report :: "nat \<Rightarrow> nat \<Rightarrow> progress" where
  "progress_report processedCount n =
     \<lparr>stage = ''Embedding content... ('' @ show_nat processedCount @
              ''/'' @ show_nat n @ '')'',
      percentage = js_round (js_mul (js_div (Num (real processedCount)) (Num (real n)))
                                    (Num 100))\<rparr>"

definition progress_reports :: "nat \<Rightarrow> progress list" where
  "progress_reports n =
     map (\<lambda>k. progress_report (min (batchSize * k) n) n)
         [1..<Suc (nat \<lceil>real n / real batchSize\<rceil>)]"

subsection \<open>Stub collaborators\<close>

text \<open>
  Embedding functions for tests. Their world is the number of calls made so far.
  \<open>counting_stub v\<close> resolves every call with \<open>v\<close>; \<open>table_stub t\<close> resolves a text
  with the vector the table \<open>t\<close> gives it and rejects a text the table does not have;
  \<open>failing_from k\<close> resolves the first \<open>k\<close> calls and rejects every later one.
\<close>

definition counting_stub :: "vec \<Rightarrow> nat EmbeddingFunction" where
  "counting_stub v text calls = (Resolved v, Suc calls)"

definition table_stub :: "(string \<times> vec) list \<Rightarrow> nat EmbeddingFunction" where
  "table_stub t text calls =
     (case map_of t text of Some v \<Rightarrow> (Resolved v, Suc calls)
                          | None \<Rightarrow> (Rejected, Suc calls))"

definition failing_from :: "nat \<Rightarrow> nat EmbeddingFunction" where
  "failing_from k text calls = (if calls < k then Resolved [Num 1] else Rejected, Suc calls)"

text \<open>
  Two stores for tests: one with a one-hot embedding per chunk, and one in which the
  first and the third chunk have the same embedding.
\<close>

definition one_hot_store :: "VectorStoreEntry list" where
  "one_hot_store =
     [\<lparr>chunk = ''a'', embedding = [Num 1, Num 0, Num 0]\<rparr>,
      \<lparr>chunk = ''b'', embedding = [Num 0, Num 1, Num 0]\<rparr>,
      \<lparr>chunk = ''c'', embedding = [Num 0, Num 0, Num 1]\<rparr>]"

definition repeated_store :: "VectorStoreEntry list" where
  "repeated_store =
     [\<lparr>chunk = ''a'', embedding = [Num 1, Num 0]\<rparr>,
      \<lparr>chunk = ''b'', embedding = [Num 0, Num 1]\<rparr>,
      \<lparr>chunk = ''c'', embedding = [Num 1, Num 0]\<rparr>]"

text \<open>A store of two chunks whose embeddings point in opposite directions.\<close>

definition signed_store :: "VectorStoreEntry list" where
  "signed_store =
     [\<lparr>chunk = ''a'', embedding = [Num (- 1)]\<rparr>,
      \<lparr>chunk = ''b'', embedding = [Num 1]\<rparr>]"

text \<open>A store is created empty (\<^verbatim>\<open>private store: VectorStoreEntry[] = []\<close>).\<close>

definition new_VectorStore :: "VectorStoreEntry list" where
  "new_VectorStore = []"

subsection \<open>The outcome of \<^verbatim>\<open>create\<close>, in terms of the calls it issues\<close>

text \<open>
  The values of the resolved promises of a list, the entries that pair chunks with
  embeddings in order, and the position of the first rejected promise of a list (its
  length when none is rejected).
\<close>

fun resolved_values :: "'a promise list \<Rightarrow> 'a list" where
  "resolved_values [] = []"
| "resolved_values (Resolved v # ps) = v # resolved_values ps"
| "resolved_values (Rejected # ps) = resolved_values ps"

definition store_entries :: "string list \<Rightarrow> vec list \<Rightarrow> VectorStoreEntry list" where
  "store_entries cs vs = map2 (\<lambda>c v. \<lparr>chunk = c, embedding = v\<rparr>) cs vs"

definition first_rejected :: "'a promise list \<Rightarrow> nat" where
  "first_rejected ps = length (takeWhile (\<lambda>p. p \<noteq> Rejected) ps)"

text \<open>The number of chunks in the batches that come before the batch of chunk \<open>k\<close>.\<close>

definition completed_before :: "nat \<Rightarrow> nat" where
  "completed_before k = batchSize * (k div batchSize)"

text \<open>A text of 4201 characters, which the chunker cuts into six chunks.\<close>

definition long_text :: string where
  "long_text = replicate 4201 (CHR ''a'')"

text \<open>A text of 160000 characters, which the chunker cuts into 200 chunks.\<close>

definition book_text :: string where
  "book_text = replicate 160000 (CHR ''a'')"

text \<open>The chunks of \<open>long_text\<close>, and the store holding its first batch.\<close>

definition long_chunk :: string where
  "long_chunk = replicate 1000 (CHR ''a'')"

definition last_chunk :: string where
  "last_chunk = replicate 201 (CHR ''a'')"

definition first_batch_store :: "VectorStoreEntry list" where
  "first_batch_store =
     [\<lparr>chunk = long_chunk, embedding = [Num 1]\<rparr>,
      \<lparr>chunk = long_chunk, embedding = [Num 1]\<rparr>,
      \<lparr>chunk = long_chunk, embedding = [Num 1]\<rparr>,
      \<lparr>chunk = long_chunk, embedding = [Num 1]\<rparr>,
      \<lparr>chunk = long_chunk, embedding = [Num 1]\<rparr>]"

section \<open>Verification\<close>

subsection \<open>Facts about the chunker\<close>

lemma last_window_reaches:
  assumes "overlap < chunkSize" "text \<noteq> []"
  shows "reaches_end text chunkSize overlap (last_window text chunkSize overlap)"
    and "last_window text chunkSize overlap < length text"
proof -
  let ?P = "\<lambda>k. \<not> reaches_end text chunkSize overlap k"
  let ?m = "length (takeWhile ?P [0..<length text])"
  have pos: "0 < length text" using assms(2) by simp
  have "0 < chunkSize - overlap" using assms(1) by simp
  then have "length text - 1 \<le> (length text - 1) * (chunkSize - overlap)"
    by (cases "chunkSize - overlap") simp_all
  then have top: "reaches_end text chunkSize overlap (length text - 1)"
    using assms(1) pos unfolding reaches_end_def by linarith
  have "?m \<noteq> length text"
  proof
    assume eq: "?m = length text"
    then have "takeWhile ?P [0..<length text] = [0..<length text]"
      by (metis length_upt diff_zero takeWhile_eq_take take_all order_refl)
    then have "\<forall>k \<in> set [0..<length text]. ?P k"
      by (metis set_takeWhileD)
    then have "?P (length text - 1)" using pos by simp
    with top show False by simp
  qed
  moreover have "?m \<le> length text"
    using length_takeWhile_le [of ?P "[0..<length text]"] by simp
  ultimately have lt: "?m < length text" by simp
  then show "last_window text chunkSize overlap < length text"
    by (simp add: last_window_def)
  have "\<not> ?P ([0..<length text] ! ?m)"
    by (rule nth_length_takeWhile) (use lt in simp)
  then show "reaches_end text chunkSize overlap (last_window text chunkSize overlap)"
    using lt by (simp add: last_window_def)
qed

lemma before_last_window:
  assumes "k < last_window text chunkSize overlap"
  shows "\<not> reaches_end text chunkSize overlap k"
proof -
  let ?P = "\<lambda>k. \<not> reaches_end text chunkSize overlap k"
  let ?tw = "takeWhile ?P [0..<length text]"
  have k: "k < length ?tw" using assms by (simp add: last_window_def)
  have "length ?tw \<le> length [0..<length text]" by (rule length_takeWhile_le)
  then have kl: "k < length text" using k by simp
  have "?tw ! k = [0..<length text] ! k" using k by (rule takeWhile_nth)
  then have "?tw ! k = k" using kl by simp
  moreover have "?tw ! k \<in> set ?tw" using k by (rule nth_mem)
  ultimately have "k \<in> set ?tw" by simp
  then show ?thesis by (rule set_takeWhileD [THEN conjunct2])
qed

lemma window_start_lt:
  assumes "overlap < chunkSize" "text \<noteq> []" "k \<le> last_window text chunkSize overlap"
  shows "k * (chunkSize - overlap) < length text"
proof (cases k)
  case 0
  then show ?thesis using assms(2) by simp
next
  case (Suc j)
  then have "j < last_window text chunkSize overlap" using assms(3) by simp
  then have "\<not> reaches_end text chunkSize overlap j" by (rule before_last_window)
  then have "j * (chunkSize - overlap) + chunkSize < length text"
    by (simp add: reaches_end_def)
  then show ?thesis using Suc assms(1) by simp
qed

lemma slice_window:
  assumes "k * (chunkSize - overlap) < length text"
  shows "slice text (k * (chunkSize - overlap))
           (min (k * (chunkSize - overlap) + chunkSize) (length text))
         = window text chunkSize overlap k"
proof -
  have "min (min (k * (chunkSize - overlap) + chunkSize) (length text)) (length text)
          - min (k * (chunkSize - overlap)) (length text)
        = min chunkSize (length text - k * (chunkSize - overlap))"
    using assms by linarith
  then show ?thesis by (simp only: slice_def window_def)
qed

lemma chunkText_loop_windows:
  assumes "overlap < chunkSize" "text \<noteq> []" "k \<le> last_window text chunkSize overlap"
  shows "chunkText_loop text chunkSize overlap (k * (chunkSize - overlap)) acc
         = Some (acc @ map (window text chunkSize overlap)
                          [k..<Suc (last_window text chunkSize overlap)])"
  using assms(3)
proof (induction "last_window text chunkSize overlap - k" arbitrary: k acc)
  case 0
  then have k: "k = last_window text chunkSize overlap" by simp
  have lt: "k * (chunkSize - overlap) < length text"
    using assms(1,2) "0.prems" by (rule window_start_lt)
  have "reaches_end text chunkSize overlap k"
    unfolding k using assms(1,2) by (rule last_window_reaches)
  then have "min (k * (chunkSize - overlap) + chunkSize) (length text) = length text"
    by (simp add: reaches_end_def)
  then show ?case
    using lt slice_window [OF lt]
    by (subst chunkText_loop.simps) (simp add: Let_def k)
next
  case (Suc d)
  then have kl: "k < last_window text chunkSize overlap" by simp
  have lt: "k * (chunkSize - overlap) < length text"
    using assms(1,2) Suc.prems by (rule window_start_lt)
  have "\<not> reaches_end text chunkSize overlap k" using kl by (rule before_last_window)
  then have ne: "min (k * (chunkSize - overlap) + chunkSize) (length text) \<noteq> length text"
    by (simp add: reaches_end_def)
  have step: "k * (chunkSize - overlap) + (chunkSize - overlap) = Suc k * (chunkSize - overlap)"
    by simp
  have IH: "chunkText_loop text chunkSize overlap (Suc k * (chunkSize - overlap))
              (acc @ [window text chunkSize overlap k])
            = Some ((acc @ [window text chunkSize overlap k]) @
                 map (window text chunkSize overlap)
                   [Suc k..<Suc (last_window text chunkSize overlap)])"
    using Suc.hyps(2) kl by (intro Suc.hyps(1)) simp_all
  have "chunkText_loop text chunkSize overlap (k * (chunkSize - overlap)) acc
        = chunkText_loop text chunkSize overlap (Suc k * (chunkSize - overlap))
              (acc @ [window text chunkSize overlap k])"
    using lt ne slice_window [OF lt]
    by (subst chunkText_loop.simps) (simp only: Let_def step if_True if_False)
  also note IH
  also have "(acc @ [window text chunkSize overlap k]) @
                 map (window text chunkSize overlap)
                   [Suc k..<Suc (last_window text chunkSize overlap)]
             = acc @ map (window text chunkSize overlap)
                   [k..<Suc (last_window text chunkSize overlap)]"
    using kl by (simp add: upt_conv_Cons)
  finally show ?case .
qed

lemma chunkText_reference:
  assumes "overlap < chunkSize"
  shows "chunkText text chunkSize overlap = Some (reference_windows text chunkSize overlap)"
proof (cases "text = []")
  case True
  then show ?thesis
    unfolding chunkText_def reference_windows_def
    by (subst chunkText_loop.simps) simp
next
  case False
  have "chunkText_loop text chunkSize overlap (0 * (chunkSize - overlap)) []
        = Some ([] @ map (window text chunkSize overlap)
                          [0..<Suc (last_window text chunkSize overlap)])"
    using assms False by (rule chunkText_loop_windows) simp
  then show ?thesis using False by (simp add: chunkText_def reference_windows_def)
qed

lemma reference_windows_nonempty:
  assumes "overlap < chunkSize"
  shows "[] \<notin> set (reference_windows text chunkSize overlap)"
proof (cases "text = []")
  case True
  then show ?thesis by (simp add: reference_windows_def)
next
  case False
  have "window text chunkSize overlap k \<noteq> []" if "k \<le> last_window text chunkSize overlap" for k
  proof -
    have "k * (chunkSize - overlap) < length text"
      using assms False that by (rule window_start_lt)
    then show ?thesis using assms by (simp add: window_def)
  qed
  then have "\<forall>k \<in> set [0..<Suc (last_window text chunkSize overlap)].
               window text chunkSize overlap k \<noteq> []"
    by (simp add: less_Suc_eq_le)
  then have "[] \<notin> set (map (window text chunkSize overlap)
                          [0..<Suc (last_window text chunkSize overlap)])"
    unfolding set_map by (metis imageE)
  then show ?thesis using False by (simp add: reference_windows_def)
qed

lemma reference_windows_count:
  assumes "overlap < chunkSize" "text \<noteq> []"
  shows "int (length (reference_windows text chunkSize overlap))
         = max 1 \<lceil>(real (length text) - real overlap) / (real chunkSize - real overlap)\<rceil>"
proof -
  let ?m = "last_window text chunkSize overlap"
  let ?s = "chunkSize - overlap"
  let ?x = "(real (length text) - real overlap) / (real chunkSize - real overlap)"
  have len: "length (reference_windows text chunkSize overlap) = Suc ?m"
    using assms(2) by (simp add: reference_windows_def)
  have spos: "0 < real chunkSize - real overlap" using assms(1) by simp
  have s: "real ?s = real chunkSize - real overlap" using assms(1) by simp
  have "length text \<le> ?m * ?s + chunkSize"
    using last_window_reaches(1) [OF assms] by (simp add: reaches_end_def)
  then have "real (length text) \<le> real ?m * real ?s + real chunkSize"
    by (metis of_nat_add of_nat_mult of_nat_le_iff)
  then have "real (length text) - real overlap \<le> real (Suc ?m) * (real chunkSize - real overlap)"
    unfolding s by (simp add: algebra_simps)
  then have up: "?x \<le> real (Suc ?m)"
    using spos by (simp add: pos_divide_le_eq)
  show ?thesis
  proof (cases "?m = 0")
    case True
    then have "?x \<le> 1" using up by simp
    then have "\<lceil>?x\<rceil> \<le> 1" by (simp add: ceiling_le_iff)
    then show ?thesis using len True by simp
  next
    case False
    then have "?m - 1 < ?m" by simp
    then have "\<not> reaches_end text chunkSize overlap (?m - 1)" by (rule before_last_window)
    then have "(?m - 1) * ?s + chunkSize < length text" by (simp add: reaches_end_def)
    then have "real ((?m - 1) * ?s + chunkSize) < real (length text)"
      by (simp only: of_nat_less_iff)
    moreover have "real (?m - 1) = real ?m - 1" using False by simp
    ultimately have "(real ?m - 1) * real ?s + real chunkSize < real (length text)"
      by (simp only: of_nat_add of_nat_mult)
    then have "real ?m * (real chunkSize - real overlap) < real (length text) - real overlap"
      unfolding s by (simp add: algebra_simps)
    then have lo: "real ?m < ?x" using spos by (simp add: pos_less_divide_eq)
    have "\<lceil>?x\<rceil> = int (Suc ?m)"
      by (rule ceiling_unique) (use lo up in simp_all)
    then show ?thesis using len by simp
  qed
qed

lemma reference_windows_short:
  assumes "overlap < chunkSize" "text \<noteq> []" "length text \<le> chunkSize"
  shows "reference_windows text chunkSize overlap = [text]"
proof -
  have r0: "reaches_end text chunkSize overlap 0"
    using assms(3) by (simp add: reaches_end_def)
  have "[0..<length text] = 0 # [Suc 0..<length text]"
    using assms(2) by (simp add: upt_conv_Cons)
  then have "last_window text chunkSize overlap = 0"
    using r0 by (simp add: last_window_def)
  then show ?thesis using assms(2,3) by (simp add: reference_windows_def window_def)
qed

lemma reference_windows_example:
  "reference_windows ''abcdefghij'' 4 (Suc 0) = [''abcd'', ''defg'', ''ghij'']"
  by code_simp

text \<open>
  Claim C2. For every text and every \<open>chunkSize > overlap \<ge> 0\<close>, \<open>chunkText\<close> returns,
  and what it returns is the reference window sequence: window \<open>k\<close> is the substring
  at offset \<open>k * (chunkSize - overlap)\<close> of \<open>min chunkSize (remaining length)\<close>
  characters, the sequence stops with the first window that reaches the end of the
  text, and no window is empty. For a non-empty text of length \<open>L\<close> the number of
  chunks is \<open>max 1 \<lceil>(L - overlap) / (chunkSize - overlap)\<rceil>\<close>, which is at least one, and
  a non-empty text with \<open>L \<le> chunkSize\<close> gives the single chunk \<open>text\<close>. (The empty
  text gives no chunk.)
\<close>

theorem chunkText_is_reference_windows:
  assumes "overlap < chunkSize"
  shows "chunkText text chunkSize overlap = Some (reference_windows text chunkSize overlap)
       \<and> [] \<notin> set (reference_windows text chunkSize overlap)
       \<and> (text \<noteq> [] \<longrightarrow>
            int (length (reference_windows text chunkSize overlap))
              = max 1 \<lceil>(real (length text) - real overlap) / (real chunkSize - real overlap)\<rceil>
          \<and> 1 \<le> length (reference_windows text chunkSize overlap))
       \<and> (text \<noteq> [] \<and> length text \<le> chunkSize \<longrightarrow>
            reference_windows text chunkSize overlap = [text])
       \<and> (text = [] \<longrightarrow> reference_windows text chunkSize overlap = [])"
proof (intro conjI impI)
  show "chunkText text chunkSize overlap = Some (reference_windows text chunkSize overlap)"
    using assms by (rule chunkText_reference)
  show "[] \<notin> set (reference_windows text chunkSize overlap)"
    using assms by (rule reference_windows_nonempty)
  show "int (length (reference_windows text chunkSize overlap))
          = max 1 \<lceil>(real (length text) - real overlap) / (real chunkSize - real overlap)\<rceil>"
    if "text \<noteq> []"
    using assms that by (rule reference_windows_count)
  show "1 \<le> length (reference_windows text chunkSize overlap)" if "text \<noteq> []"
    using that by (simp add: reference_windows_def)
  show "reference_windows text chunkSize overlap = [text]"
    if "text \<noteq> [] \<and> length text \<le> chunkSize"
    using assms that by (simp add: reference_windows_short)
  show "reference_windows text chunkSize overlap = []" if "text = []"
    using that by (simp add: reference_windows_def)
qed

theorem chunkText_is_reference_windows_witness:
  "(1::nat) < 4
   \<and> chunkText ''abcdefghij'' 4 1 = Some [''abcd'', ''defg'', ''ghij'']
   \<and> int (length [''abcd'', ''defg'', ''ghij'']) = max 1 \<lceil>(10 - 1) / (4 - 1 :: real)\<rceil>
   \<and> chunkText ''abc'' 4 1 = Some [''abc'']
   \<and> chunkText [] 4 1 = Some []"
  using chunkText_is_reference_windows [of 1 4 "''abcdefghij''"]
        chunkText_is_reference_windows [of 1 4 "''abc''"]
        chunkText_is_reference_windows [of 1 4 "[]"]
  by (simp add: reference_windows_example)


subsection \<open>Facts about rounding to a double\<close>

lemma rne_of_int [simp]: "rne (of_int k) = k"
  by (simp add: rne_def)

lemma rne_floor: "\<lfloor>x\<rfloor> \<le> rne x" "rne x \<le> \<lfloor>x\<rfloor> + 1"
  by (simp_all add: rne_def)

lemma rne_mono: "x \<le> y \<Longrightarrow> rne x \<le> rne y"
proof -
  assume xy: "x \<le> y"
  then have f: "\<lfloor>x\<rfloor> \<le> \<lfloor>y\<rfloor>" by (rule floor_mono)
  show ?thesis
  proof (cases "\<lfloor>x\<rfloor> = \<lfloor>y\<rfloor>")
    case True
    then have "x - of_int \<lfloor>x\<rfloor> \<le> y - of_int \<lfloor>y\<rfloor>" using xy by simp
    then show ?thesis using True by (auto simp: rne_def)
  next
    case False
    then have "\<lfloor>x\<rfloor> + 1 \<le> \<lfloor>y\<rfloor>" using f by simp
    then show ?thesis using rne_floor(2) [of x] rne_floor(1) [of y] by linarith
  qed
qed

lemma rne_ge: "of_int k \<le> x \<Longrightarrow> k \<le> rne x"
  using rne_mono [of "of_int k" x] by simp

lemma rne_le: "x \<le> of_int k \<Longrightarrow> rne x \<le> k"
  using rne_mono [of x "of_int k"] by simp

lemma two_powi_pos [simp]: "0 < (2::real) powi k"
  by simp

lemma two_powi_mono: "j \<le> k \<Longrightarrow> (2::real) powi j \<le> 2 powi k"
  by (rule power_int_increasing) simp_all

lemma two_powi_strict_mono: "j < k \<Longrightarrow> (2::real) powi j < 2 powi k"
  by (rule power_int_strict_increasing) simp_all

lemma two_powr_powi: "(2::real) powr of_int k = 2 powi k"
  by (rule powr_real_of_int') simp_all

lemma floor_log2_bounds:
  assumes "x \<noteq> 0"
  shows "2 powi \<lfloor>log 2 \<bar>x\<bar>\<rfloor> \<le> \<bar>x\<bar>" "\<bar>x\<bar> < 2 powi (\<lfloor>log 2 \<bar>x\<bar>\<rfloor> + 1)"
proof -
  have pos: "0 < \<bar>x\<bar>" using assms by simp
  have "2 powr of_int \<lfloor>log 2 \<bar>x\<bar>\<rfloor> \<le> \<bar>x\<bar> \<and> \<bar>x\<bar> < 2 powr (of_int \<lfloor>log 2 \<bar>x\<bar>\<rfloor> + 1)"
    using floor_log_eq_powr_iff [OF pos, of 2 "\<lfloor>log 2 \<bar>x\<bar>\<rfloor>"] by simp
  moreover have "(2::real) powr (of_int \<lfloor>log 2 \<bar>x\<bar>\<rfloor> + 1) = 2 powi (\<lfloor>log 2 \<bar>x\<bar>\<rfloor> + 1)"
    using two_powr_powi [of "\<lfloor>log 2 \<bar>x\<bar>\<rfloor> + 1"] by simp
  ultimately show "2 powi \<lfloor>log 2 \<bar>x\<bar>\<rfloor> \<le> \<bar>x\<bar>" "\<bar>x\<bar> < 2 powi (\<lfloor>log 2 \<bar>x\<bar>\<rfloor> + 1)"
    by (simp_all add: two_powr_powi)
qed

lemma floor_log2_eqI:
  assumes "2 powi e \<le> \<bar>x\<bar>" "\<bar>x\<bar> < 2 powi (e + 1)"
  shows "\<lfloor>log 2 \<bar>x\<bar>\<rfloor> = e"
proof -
  have "0 < (2::real) powi e" by simp
  then have pos: "0 < \<bar>x\<bar>" using assms(1) by linarith
  have "(2::real) powr (of_int e + 1) = 2 powi (e + 1)"
    using two_powr_powi [of "e + 1"] by simp
  then show ?thesis
    using floor_log_eq_powr_iff [OF pos, of 2 e] assms by (simp add: two_powr_powi)
qed

lemma binade_ge: "- 1022 \<le> binade x"
  by (simp add: binade_def)

lemma binade_upper: "x \<noteq> 0 \<Longrightarrow> \<bar>x\<bar> < 2 powi (binade x + 1)"
proof -
  assume "x \<noteq> 0"
  then have "\<bar>x\<bar> < 2 powi (\<lfloor>log 2 \<bar>x\<bar>\<rfloor> + 1)" by (rule floor_log2_bounds)
  also have "\<dots> \<le> 2 powi (binade x + 1)"
    by (rule two_powi_mono) (simp add: binade_def)
  finally show ?thesis .
qed

lemma binade_lower: "x \<noteq> 0 \<Longrightarrow> - 1022 < binade x \<Longrightarrow> 2 powi binade x \<le> \<bar>x\<bar>"
proof -
  assume x: "x \<noteq> 0" and "- 1022 < binade x"
  then have "binade x = \<lfloor>log 2 \<bar>x\<bar>\<rfloor>" by (simp add: binade_def max_def split: if_splits)
  then show ?thesis using floor_log2_bounds(1) [OF x] by simp
qed

lemma binade_eqI:
  assumes "2 powi e \<le> \<bar>x\<bar>" "\<bar>x\<bar> < 2 powi (e + 1)" "- 1022 \<le> e"
  shows "binade x = e"
  using floor_log2_eqI [OF assms(1,2)] assms(3) by (simp add: binade_def)

lemma binade_subnormal:
  assumes "x \<noteq> 0" "\<bar>x\<bar> < 2 powi (- 1022)"
  shows "binade x = - 1022"
proof -
  have "\<lfloor>log 2 \<bar>x\<bar>\<rfloor> < - 1022"
  proof (rule ccontr)
    assume "\<not> \<lfloor>log 2 \<bar>x\<bar>\<rfloor> < - 1022"
    then have "(2::real) powi (- 1022) \<le> 2 powi \<lfloor>log 2 \<bar>x\<bar>\<rfloor>"
      by (intro two_powi_mono) simp
    then show False using floor_log2_bounds(1) [OF assms(1)] assms(2) by linarith
  qed
  then show ?thesis by (simp add: binade_def)
qed

lemma binade_mono:
  assumes "0 < x" "x \<le> y"
  shows "binade x \<le> binade y"
proof -
  have "log 2 \<bar>x\<bar> \<le> log 2 \<bar>y\<bar>" using assms by simp
  then have "\<lfloor>log 2 \<bar>x\<bar>\<rfloor> \<le> \<lfloor>log 2 \<bar>y\<bar>\<rfloor>" by (rule floor_mono)
  then show ?thesis by (simp add: binade_def)
qed

lemma quantum_pos [simp]: "0 < quantum x"
  by (simp add: quantum_def)

lemma quantum_nonneg [simp]: "0 \<le> quantum x"
  using quantum_pos [of x] by linarith

lemma quantum_53: "quantum x * 9007199254740992 = 2 powi (binade x + 1)"
proof -
  have "(2::real) powi (binade x - 52) * 2 powi 53 = 2 powi (binade x - 52 + 53)"
    by (rule power_int_add [symmetric]) simp
  moreover have "binade x - 52 + 53 = binade x + 1" by simp
  moreover have "(2::real) powi 53 = 9007199254740992" by simp
  ultimately show ?thesis by (simp only: quantum_def)
qed

lemma quantum_52: "quantum x * 4503599627370496 = 2 powi binade x"
proof -
  have "(2::real) powi (binade x - 52) * 2 powi 52 = 2 powi (binade x - 52 + 52)"
    by (rule power_int_add [symmetric]) simp
  moreover have "binade x - 52 + 52 = binade x" by simp
  moreover have "(2::real) powi 52 = 4503599627370496" by simp
  ultimately show ?thesis by (simp only: quantum_def)
qed

lemma nearest_nonneg: "0 \<le> x \<Longrightarrow> 0 \<le> nearest x"
proof -
  assume "0 \<le> x"
  then have "of_int 0 \<le> x / quantum x" by simp
  then have "0 \<le> rne (x / quantum x)" by (rule rne_ge)
  then show ?thesis by (simp add: nearest_def)
qed

lemma nearest_nonpos: "x \<le> 0 \<Longrightarrow> nearest x \<le> 0"
proof -
  assume "x \<le> 0"
  then have "x / quantum x \<le> of_int 0" by (simp add: divide_nonpos_pos)
  then have "rne (x / quantum x) \<le> 0" by (rule rne_le)
  then have "real_of_int (rne (x / quantum x)) \<le> 0" by simp
  then have "quantum x * real_of_int (rne (x / quantum x)) \<le> 0"
    by (intro mult_nonneg_nonpos) simp_all
  then show ?thesis by (simp add: nearest_def)
qed

lemma nearest_upper:
  assumes "0 < x"
  shows "nearest x \<le> 2 powi (binade x + 1)"
proof -
  have "x < 2 powi (binade x + 1)" using binade_upper [of x] assms by simp
  then have "x < 9007199254740992 * quantum x"
    by (simp only: quantum_53 [symmetric] mult.commute)
  then have "x / quantum x \<le> 9007199254740992"
    by (simp add: pos_divide_le_eq)
  then have "x / quantum x \<le> of_int 9007199254740992" by simp
  then have "rne (x / quantum x) \<le> 9007199254740992" by (rule rne_le)
  then have "real_of_int (rne (x / quantum x)) \<le> 9007199254740992" by linarith
  then have "quantum x * of_int (rne (x / quantum x)) \<le> quantum x * 9007199254740992"
    by (intro mult_left_mono) simp_all
  then show ?thesis using assms by (simp only: nearest_def quantum_53) simp
qed

lemma nearest_lower:
  assumes "0 < x" "2 powi binade x \<le> x"
  shows "2 powi binade x \<le> nearest x"
proof -
  have "4503599627370496 * quantum x \<le> x"
    using assms(2) by (simp only: quantum_52 [symmetric] mult.commute)
  then have "4503599627370496 \<le> x / quantum x"
    by (simp add: pos_le_divide_eq)
  then have "of_int 4503599627370496 \<le> x / quantum x" by simp
  then have "4503599627370496 \<le> rne (x / quantum x)" by (rule rne_ge)
  then have "4503599627370496 \<le> real_of_int (rne (x / quantum x))" by linarith
  then have "quantum x * 4503599627370496 \<le> quantum x * of_int (rne (x / quantum x))"
    by (intro mult_left_mono) simp_all
  then show ?thesis using assms by (simp only: nearest_def quantum_52) simp
qed

lemma nearest_mono:
  assumes "0 \<le> x" "x \<le> y"
  shows "nearest x \<le> nearest y"
proof (cases "x = 0")
  case True
  then show ?thesis using nearest_nonneg [of y] assms by (simp add: nearest_def)
next
  case False
  then have x: "0 < x" and y: "0 < y" using assms by simp_all
  have b: "binade x \<le> binade y" using x assms(2) by (rule binade_mono)
  show ?thesis
  proof (cases "binade x = binade y")
    case True
    then have q: "quantum x = quantum y" by (simp add: quantum_def)
    have "x / quantum y \<le> y / quantum y" using assms(2) by (intro divide_right_mono) simp_all
    then have "rne (x / quantum y) \<le> rne (y / quantum y)" by (rule rne_mono)
    then have "quantum y * of_int (rne (x / quantum y)) \<le> quantum y * of_int (rne (y / quantum y))"
      by (intro mult_left_mono) simp_all
    then show ?thesis using x y by (simp add: nearest_def q)
  next
    case False
    then have lt: "binade x + 1 \<le> binade y" using b by simp
    then have "- 1022 < binade y" using binade_ge [of x] by linarith
    then have "2 powi binade y \<le> y" using binade_lower [of y] y by simp
    then have "2 powi binade y \<le> nearest y" using y by (intro nearest_lower)
    moreover have "nearest x \<le> 2 powi (binade x + 1)" using x by (rule nearest_upper)
    moreover have "(2::real) powi (binade x + 1) \<le> 2 powi binade y"
      using lt by (rule two_powi_mono)
    ultimately show ?thesis by linarith
  qed
qed

lemma rne_zero [simp]: "rne 0 = 0"
  using rne_of_int [of 0] by simp

lemma nearest_zero [simp]: "nearest 0 = 0"
  by (simp add: nearest_def)

lemma nearest_exact:
  assumes x: "x = of_int m * 2 powi k" and m: "\<bar>m\<bar> < 2 ^ 53" and k: "- 1074 \<le> k"
  shows "nearest x = x"
proof (cases "x = 0")
  case True
  then show ?thesis by simp
next
  case False
  have absx: "\<bar>x\<bar> = of_int \<bar>m\<bar> * 2 powi k" by (simp add: x abs_mult)
  have "real_of_int \<bar>m\<bar> < real_of_int (2 ^ 53)" using m by (simp only: of_int_less_iff)
  then have "real_of_int \<bar>m\<bar> < 2 ^ 53" by simp
  then have "\<bar>x\<bar> < 2 ^ 53 * 2 powi k" unfolding absx by (intro mult_strict_right_mono) simp_all
  also have "(2::real) ^ 53 * 2 powi k = 2 powi (53 + k)"
    using power_int_add [of "2::real" 53 k] by simp
  finally have up: "\<bar>x\<bar> < 2 powi (53 + k)" .
  have "\<lfloor>log 2 \<bar>x\<bar>\<rfloor> < 53 + k"
  proof (rule ccontr)
    assume "\<not> \<lfloor>log 2 \<bar>x\<bar>\<rfloor> < 53 + k"
    then have "(2::real) powi (53 + k) \<le> 2 powi \<lfloor>log 2 \<bar>x\<bar>\<rfloor>"
      by (intro two_powi_mono) simp
    then show False using floor_log2_bounds(1) [OF False] up by linarith
  qed
  then have e: "binade x \<le> k + 52" using k by (simp add: binade_def)
  define d where "d = nat (k + 52 - binade x)"
  have kd: "k = (binade x - 52) + int d" using e by (simp add: d_def)
  have "(2::real) powi k = 2 powi (binade x - 52) * 2 powi (int d)"
    unfolding kd by (rule power_int_add) simp
  define q where "q = quantum x"
  have qpos: "0 < q" by (simp add: q_def)
  have pk: "(2::real) powi k = q * 2 ^ d"
    using \<open>(2::real) powi k = 2 powi (binade x - 52) * 2 powi (int d)\<close>
    by (simp add: q_def quantum_def)
  have xq: "x = q * of_int (m * 2 ^ d)" by (simp add: x pk)
  then have "x / q = of_int (m * 2 ^ d)" using qpos by simp
  then have "rne (x / q) = m * 2 ^ d" by (simp only: rne_of_int)
  then have "q * of_int (rne (x / q)) = x" using xq by simp
  then show ?thesis using False by (simp only: nearest_def q_def if_False)
qed

lemma nearest_of_int: "\<bar>m\<bar> < 2 ^ 53 \<Longrightarrow> nearest (of_int m) = of_int m"
  using nearest_exact [of "of_int m" m 0] by simp

lemma nearest_two_powi: "- 1074 \<le> k \<Longrightarrow> nearest (2 powi k) = 2 powi k"
  using nearest_exact [of "2 powi k" 1 k] by simp

lemma MIN_VALUE_pos [simp]: "0 < MIN_VALUE"
  by (simp only: MIN_VALUE_def two_powi_pos)

lemma MIN_VALUE_nonneg [simp]: "0 \<le> MIN_VALUE"
  using MIN_VALUE_pos by linarith

lemma on_grid_zero [simp]: "on_grid 0"
proof -
  have "(0::real) = of_int 0 * MIN_VALUE" by simp
  then show ?thesis unfolding on_grid_def by blast
qed

lemma on_grid_nearest: "on_grid (nearest x)"
proof (cases "x = 0")
  case True
  then show ?thesis by simp
next
  case False
  define d where "d = nat (binade x + 1022)"
  have e: "binade x - 52 = - 1074 + int d" using binade_ge [of x] by (simp add: d_def)
  have "(2::real) powi (- 1074 + int d) = 2 powi (- 1074) * 2 powi (int d)"
    by (rule power_int_add) simp
  then have q: "quantum x = MIN_VALUE * 2 ^ d"
    by (simp only: quantum_def e MIN_VALUE_def power_int_of_nat)
  have "nearest x = quantum x * of_int (rne (x / quantum x))"
    using False by (simp only: nearest_def if_False)
  also have "\<dots> = of_int (rne (x / quantum x) * 2 ^ d) * MIN_VALUE"
    by (simp add: q)
  finally show ?thesis unfolding on_grid_def by blast
qed

lemma on_grid_gap:
  assumes "on_grid a" "on_grid b" "a < b"
  shows "MIN_VALUE \<le> b - a"
proof -
  obtain i j :: int where a: "a = of_int i * MIN_VALUE" and b: "b = of_int j * MIN_VALUE"
    using assms(1,2) unfolding on_grid_def by blast
  have "of_int i * MIN_VALUE < of_int j * MIN_VALUE"
    using assms(3) a b by simp
  then have "real_of_int i < of_int j" by simp
  then have "i + 1 \<le> j" by simp
  then have "real_of_int (j - i) \<ge> 1" by linarith
  then have "1 * MIN_VALUE \<le> of_int (j - i) * MIN_VALUE"
    by (intro mult_right_mono) simp_all
  then show ?thesis by (simp add: a b algebra_simps)
qed

lemma nearest_MIN_VALUE: "nearest MIN_VALUE = MIN_VALUE"
  unfolding MIN_VALUE_def by (rule nearest_two_powi) simp

lemma nearest_ge_MIN_VALUE: "MIN_VALUE \<le> x \<Longrightarrow> MIN_VALUE \<le> nearest x"
proof -
  assume "MIN_VALUE \<le> x"
  moreover have "0 \<le> MIN_VALUE" using MIN_VALUE_pos by linarith
  ultimately have "nearest MIN_VALUE \<le> nearest x" by (intro nearest_mono)
  then show ?thesis by (simp only: nearest_MIN_VALUE)
qed


lemma nearest_normal:
  assumes "2 powi e \<le> \<bar>x\<bar>" "\<bar>x\<bar> < 2 powi (e + 1)" "- 1022 \<le> e"
  shows "nearest x = 2 powi (e - 52) * of_int (rne (x / 2 powi (e - 52)))"
proof -
  have "0 < (2::real) powi e" by simp
  then have "0 < \<bar>x\<bar>" using assms(1) by linarith
  then have "x \<noteq> 0" by simp
  moreover have "binade x = e" using assms by (rule binade_eqI)
  ultimately show ?thesis by (simp add: nearest_def quantum_def)
qed

lemma nearest_subnormal:
  assumes "\<bar>x\<bar> < 2 powi (- 1022)"
  shows "nearest x = 2 powi (- 1074) * of_int (rne (x / 2 powi (- 1074)))"
proof (cases "x = 0")
  case True
  then show ?thesis by simp
next
  case False
  then have "binade x = - 1022" using assms by (rule binade_subnormal)
  then show ?thesis using False by (simp add: nearest_def quantum_def)
qed


lemma fl_zero [simp]: "fl 0 = Num 0"
  by (simp add: fl_def)

lemma fl_not_NaN [simp]: "fl x \<noteq> NaN"
  by (simp add: fl_def)

lemma is_double_fl [simp]: "is_double (fl x)"
  by (simp add: fl_def on_grid_nearest)

lemma fl_exact:
  assumes "nearest x = x" "\<bar>x\<bar> < 2 ^ 1024"
  shows "fl x = Num x"
proof -
  have "\<not> 2 ^ 1024 \<le> x" "\<not> x \<le> - (2 ^ 1024)" using assms(2) by linarith+
  then show ?thesis by (simp only: fl_def assms(1) if_False)
qed

lemma fl_of_int:
  assumes "\<bar>m\<bar> < 2 ^ 53"
  shows "fl (of_int m) = Num (of_int m)"
proof (rule fl_exact)
  show "nearest (of_int m) = of_int m" using assms by (rule nearest_of_int)
  have "real_of_int \<bar>m\<bar> < real_of_int (2 ^ 53)" using assms by (simp only: of_int_less_iff)
  moreover have "real_of_int (2 ^ 53) < 2 ^ 1024" by simp
  ultimately show "\<bar>real_of_int m\<bar> < 2 ^ 1024" by simp
qed

lemma fl_one [simp]: "fl 1 = Num 1"
  using fl_of_int [of 1] by simp

lemma fl_numeral [simp]:
  "numeral n < (9007199254740992::int) \<Longrightarrow> fl (numeral n) = Num (numeral n)"
  using fl_of_int [of "numeral n"] by simp

lemma fl_of_nat: "n < 2 ^ 53 \<Longrightarrow> fl (real n) = Num (real n)"
  using fl_of_int [of "int n"] by simp

lemma fl_nonneg:
  assumes "0 \<le> x"
  shows "fl x = (if 2 ^ 1024 \<le> nearest x then PosInf else Num (nearest x))"
proof -
  have "0 \<le> nearest x" using assms by (rule nearest_nonneg)
  then have "\<not> nearest x \<le> - (2 ^ 1024)" by simp
  then show ?thesis by (simp only: fl_def if_False)
qed

lemma fl_mono:
  assumes "0 \<le> x" "x \<le> y"
  shows "js_le (fl x) (fl y)"
proof -
  have "nearest x \<le> nearest y" using assms by (rule nearest_mono)
  moreover have "0 \<le> y" using assms by simp
  ultimately show ?thesis
    using assms(1) by (simp add: fl_nonneg js_le_def)
qed

lemma fl_bounded:
  assumes "0 \<le> x" "x \<le> b" "nearest b = b" "b < 2 ^ 1024"
  shows "fl x = Num (nearest x)" "0 \<le> nearest x" "nearest x \<le> b"
proof -
  show n: "0 \<le> nearest x" using assms(1) by (rule nearest_nonneg)
  have "nearest x \<le> nearest b" using assms(1,2) by (rule nearest_mono)
  then show b: "nearest x \<le> b" by (simp only: assms(3))
  then have "\<not> 2 ^ 1024 \<le> nearest x" using assms(4) by linarith
  then show "fl x = Num (nearest x)" using assms(1) by (simp add: fl_nonneg)
qed

lemma fl_pos:
  assumes "MIN_VALUE \<le> x"
  shows "js_positive (fl x)" "fl x \<noteq> Num 0"
proof -
  have "MIN_VALUE \<le> nearest x" using assms by (rule nearest_ge_MIN_VALUE)
  then have pos: "0 < nearest x" using MIN_VALUE_pos by linarith
  have "0 \<le> x" using assms MIN_VALUE_pos by linarith
  then show "js_positive (fl x)" "fl x \<noteq> Num 0" using pos by (simp_all add: fl_nonneg)
qed

lemma fl_nonpos:
  assumes "x \<le> 0"
  shows "\<not> js_positive (fl x)"
proof -
  have "nearest x \<le> 0" using assms by (rule nearest_nonpos)
  then show ?thesis by (simp add: fl_def)
qed

lemma js_sub_positive:
  assumes "is_double a" "is_double b" "a \<noteq> NaN" "b \<noteq> NaN"
  shows "js_positive (js_sub b a) \<longleftrightarrow> js_less a b"
proof (cases a)
  case a: (Num x)
  show ?thesis
  proof (cases b)
    case b: (Num y)
    show ?thesis
    proof (cases "x < y")
      case True
      then have "MIN_VALUE \<le> y - x" using assms(1,2) a b by (simp add: on_grid_gap)
      then have "js_positive (fl (y - x))" by (rule fl_pos)
      then show ?thesis using True by (simp add: a b js_sub_def)
    next
      case False
      then have "y - x \<le> 0" by simp
      then have "\<not> js_positive (fl (y - x))" by (rule fl_nonpos)
      then show ?thesis using False by (simp add: a b js_sub_def)
    qed
  qed (use assms a in \<open>simp_all add: js_sub_def\<close>)
next
  case PosInf
  then show ?thesis using assms by (cases b) (simp_all add: js_sub_def)
next
  case NegInf
  then show ?thesis using assms by (cases b) (simp_all add: js_sub_def)
next
  case NaN
  then show ?thesis using assms by simp
qed

lemma js_less_key:
  assumes "a \<noteq> NaN" "b \<noteq> NaN"
  shows "js_less a b \<longleftrightarrow> js_key a < js_key b"
proof -
  have lo: "- 2 < arctan x" for x using arctan_lbound [of x] pi_less_4 by linarith
  have hi: "arctan x < 2" for x using arctan_ubound [of x] pi_less_4 by linarith
  show ?thesis
    using assms lo hi
    by (cases a; cases b) (simp_all add: arctan_less_iff not_less less_imp_le)
qed

lemma js_key_eq:
  assumes "a \<noteq> NaN" "b \<noteq> NaN"
  shows "js_key a = js_key b \<longleftrightarrow> a = b"
proof -
  have lo: "arctan x \<noteq> - 2" for x using arctan_lbound [of x] pi_less_4 by linarith
  have hi: "arctan x \<noteq> 2" for x using arctan_ubound [of x] pi_less_4 by linarith
  have lo': "- 2 \<noteq> arctan x" for x using lo [of x] by simp
  have hi': "2 \<noteq> arctan x" for x using hi [of x] by simp
  show ?thesis
    using assms
    by (cases a; cases b) (simp_all add: arctan_eq_iff lo hi lo' hi')
qed

lemma fl_minus_one [simp]: "fl (- 1) = Num (- 1)"
  using fl_of_int [of "- 1"] by simp

lemma fl_neg_numeral [simp]:
  "numeral n < (9007199254740992::int) \<Longrightarrow> fl (- numeral n) = Num (- numeral n)"
  using fl_of_int [of "- numeral n"] by simp

subsection \<open>Facts about cosine similarity\<close>


lemma fdot_Nil [simp]: "fdot [] b = Num 0" "fdot a [] = Num 0"
  by (simp_all add: fdot_def)

lemma fdot_snoc:
  "length xs = length ys \<Longrightarrow> fdot (xs @ [x]) (ys @ [y]) = js_add (fdot xs ys) (js_mul x y)"
  by (simp add: fdot_def)

lemma cosine_loop:
  assumes "k \<le> length a" "k \<le> length b"
  shows "fold (\<lambda>i (dotProduct, normA, normB).
                (js_add dotProduct (js_mul (component a i) (component b i)),
                 js_add normA (js_mul (component a i) (component a i)),
                 js_add normB (js_mul (component b i) (component b i))))
             [0..<k] (Num 0, Num 0, Num 0)
         = (fdot (take k a) (take k b), fdot (take k a) (take k a), fdot (take k b) (take k b))"
proof -
  define step where "step = (\<lambda>i (dotProduct, normA, normB).
                (js_add dotProduct (js_mul (component a i) (component b i)),
                 js_add normA (js_mul (component a i) (component a i)),
                 js_add normB (js_mul (component b i) (component b i))))"
  have "fold step [0..<k] (Num 0, Num 0, Num 0)
         = (fdot (take k a) (take k b), fdot (take k a) (take k a), fdot (take k b) (take k b))"
    using assms
  proof (induction k)
    case 0
    show ?case by simp
  next
    case (Suc k)
    then have ka: "k < length a" and kb: "k < length b" by simp_all
    have IH: "fold step [0..<k] (Num 0, Num 0, Num 0)
           = (fdot (take k a) (take k b), fdot (take k a) (take k a), fdot (take k b) (take k b))"
      using Suc by simp
    have len: "length (take k a) = length (take k b)" using ka kb by simp
    have ca: "component a k = a ! k" and cb: "component b k = b ! k"
      using ka kb by (simp_all add: component_def)
    have "fold step [0..<Suc k] (Num 0, Num 0, Num 0)
          = step k (fold step [0..<k] (Num 0, Num 0, Num 0))"
      by simp
    also have "\<dots> = (js_add (fdot (take k a) (take k b)) (js_mul (a ! k) (b ! k)),
                       js_add (fdot (take k a) (take k a)) (js_mul (a ! k) (a ! k)),
                       js_add (fdot (take k b) (take k b)) (js_mul (b ! k) (b ! k)))"
      unfolding IH by (simp add: step_def ca cb)
    also have "\<dots> = (fdot (take (Suc k) a) (take (Suc k) b),
                       fdot (take (Suc k) a) (take (Suc k) a),
                       fdot (take (Suc k) b) (take (Suc k) b))"
      using ka kb
      by (simp add: take_Suc_conv_app_nth fdot_snoc [OF len]
            fdot_snoc [of "take k a" "take k a"] fdot_snoc [of "take k b" "take k b"])
    finally show ?case .
  qed
  then show ?thesis by (simp only: step_def)
qed

lemma cosineSimilarity_closed:
  assumes "length a = length b"
  shows "cosineSimilarity a b =
           (if fdot a a = Num 0 \<or> fdot b b = Num 0 then Num 0
            else js_div (fdot a b) (js_mul (js_sqrt (fdot a a)) (js_sqrt (fdot b b))))"
  using cosine_loop [of "length a" a b] assms
  by (simp add: cosineSimilarity_def)

lemma cosineSimilarity_take:
  "cosineSimilarity a b = cosineSimilarity a (take (length a) b)"
proof -
  have "fold (\<lambda>i (dotProduct, normA, normB).
                (js_add dotProduct (js_mul (component a i) (component b i)),
                 js_add normA (js_mul (component a i) (component a i)),
                 js_add normB (js_mul (component b i) (component b i)))) xs s
      = fold (\<lambda>i (dotProduct, normA, normB).
                (js_add dotProduct (js_mul (component a i) (component (take (length a) b) i)),
                 js_add normA (js_mul (component a i) (component a i)),
                 js_add normB (js_mul (component (take (length a) b) i)
                                      (component (take (length a) b) i)))) xs s"
    if "set xs \<subseteq> {..<length a}" for xs s
    using that
  proof (induction xs arbitrary: s)
    case Nil
    show ?case by simp
  next
    case (Cons i xs)
    then have "i < length a" by simp
    then have "component (take (length a) b) i = component b i"
      by (simp add: component_def)
    then show ?case using Cons by simp
  qed
  moreover have "set [0..<length a] \<subseteq> {..<length a}" by auto
  ultimately show ?thesis
    by (simp only: cosineSimilarity_def)
qed

lemma is_double_js_div [simp]: "is_double (js_div x y)"
  by (cases x; cases y) (simp_all add: inf_of_sign_def)

lemma is_double_cosineSimilarity [simp]: "is_double (cosineSimilarity a b)"
  by (simp add: cosineSimilarity_def Let_def split_beta)









lemma fl_tiny_square: "fl (tiny * tiny) = Num 0"
proof -
  have "tiny * tiny = 2 powi (- 600 + - 600)"
    unfolding tiny_def by (rule power_int_add [symmetric]) simp
  then have tt: "tiny * tiny = 2 powi (- 1200)" by simp
  have "nearest (2 powi (- 1200)) = 2 powi (- 1074) * of_int (rne (2 powi (- 1200) / 2 powi (- 1074)))"
    by (rule nearest_subnormal) (simp add: two_powi_strict_mono)
  moreover have "(2::real) powi (- 1200) / 2 powi (- 1074) = 2 powi (- 126)"
    using power_int_diff [of "2::real" "- 1200" "- 1074"] by simp
  moreover have "rne (2 powi (- 126)) = 0"
  proof -
    have "(2::real) powi (- 126) < 2 powi (- 1)" by (rule two_powi_strict_mono) simp
    then have lt: "(2::real) powi (- 126) < 1 / 2" by (simp add: power_int_minus)
    have "0 < (2::real) powi (- 126)" by simp
    then have "\<lfloor>(2::real) powi (- 126)\<rfloor> = 0" using lt by (simp add: floor_eq_iff)
    then show ?thesis using lt by (simp add: rne_def)
  qed
  ultimately have "nearest (tiny * tiny) = 0" by (simp only: tt)
  then show ?thesis by (simp add: fl_def)
qed

lemma tiny_pos: "0 < tiny"
  by (simp only: tiny_def two_powi_pos)

lemma tiny_not_zero: "tiny \<noteq> 0"
  using tiny_pos by linarith

lemma fdot_single [simp]: "fdot [x] [y] = js_add (Num 0) (js_mul x y)"
  by (simp add: fdot_def)

lemma cosineSimilarity_tiny: "cosineSimilarity [Num tiny] [y] = Num 0"
proof -
  have "fdot [Num tiny] [Num tiny] = Num 0" by (simp add: fl_tiny_square)
  then show ?thesis using cosineSimilarity_closed [of "[Num tiny]" "[y]"] by simp
qed


lemma cosine_tiny: "cosine [tiny] [y] = sgn y"
proof -
  have "sqrt (tiny * tiny) = tiny" using tiny_pos by simp
  moreover have "sqrt (y * y) = \<bar>y\<bar>" by simp
  moreover note tiny_not_zero
  ultimately show ?thesis
    by (simp add: cosine_def vnorm_def dot_def sgn_real_def)
qed




subsection \<open>Facts about the sort and the ranking\<close>

lemma mset_insort_by: "mset (insort_by cmp x ys) = add_mset x (mset ys)"
  by (induction ys) simp_all

lemma mset_sort_js: "mset (sort_js cmp xs) = mset xs"
  by (induction xs) (simp_all add: sort_js_def mset_insort_by)

lemma set_sort_js: "set (sort_js cmp xs) = set xs"
  by (metis mset_sort_js set_mset_mset)

lemma length_sort_js: "length (sort_js cmp xs) = length xs"
  by (metis mset_sort_js size_mset)

lemma insort_by_map:
  "insort_by cmp (g x) (map g ys) = map g (insort_by (\<lambda>a b. cmp (g a) (g b)) x ys)"
  by (induction ys) simp_all

lemma sort_js_map:
  "sort_js cmp (map g xs) = map g (sort_js (\<lambda>a b. cmp (g a) (g b)) xs)"
  by (induction xs) (simp_all add: sort_js_def insort_by_map)

lemma slice_to_map: "slice_to (map g xs) k = map g (slice_to xs k)"
  by (simp add: slice_to_def take_map)

lemma map_by_index: "map f xs = map (\<lambda>i. f (xs ! i)) [0..<length xs]"
  by (rule nth_equalityI) simp_all

lemma search_ranking:
  assumes "store \<noteq> []" "embeddingFn query w = (Resolved q, w')"
  shows "search store query embeddingFn topK w
         = (Resolved (map (\<lambda>i. chunk (store ! i)) (slice_to (ranking q store) topK)), w')"
proof -
  let ?g = "\<lambda>i. (chunk (store ! i), cosineSimilarity q (embedding (store ! i)))"
  have sims: "map (\<lambda>entry. (chunk entry, cosineSimilarity q (embedding entry))) store
              = map ?g [0..<length store]"
    by (rule map_by_index)
  have "sort_js (\<lambda>a b. js_sub (snd b) (snd a)) (map ?g [0..<length store])
        = map ?g (ranking q store)"
    by (simp add: sort_js_map ranking_def)
  then show ?thesis
    using assms by (simp add: search_def sims slice_to_map comp_def)
qed

lemma insort_by_ranked:
  fixes key :: "nat \<Rightarrow> real"
  assumes cmp: "\<And>y. y \<in> set ys \<Longrightarrow> js_positive (cmp x y) \<longleftrightarrow> key x < key y"
    and sorted: "sorted_wrt (\<lambda>i j. key j < key i \<or> (key i = key j \<and> i < j)) ys"
    and first: "\<And>y. y \<in> set ys \<Longrightarrow> x < y"
  shows "sorted_wrt (\<lambda>i j. key j < key i \<or> (key i = key j \<and> i < j)) (insort_by cmp x ys)"
  using assms
proof (induction ys)
  case Nil
  show ?case by simp
next
  case (Cons y ys)
  show ?case
  proof (cases "key x < key y")
    case True
    then have pos: "js_positive (cmp x y)" using Cons.prems(1) by simp
    have "sorted_wrt (\<lambda>i j. key j < key i \<or> (key i = key j \<and> i < j)) (insort_by cmp x ys)"
      using Cons.prems by (intro Cons.IH) simp_all
    moreover have "set (insort_by cmp x ys) = insert x (set ys)"
      by (metis mset_insort_by set_mset_add_mset_insert set_mset_mset)
    ultimately show ?thesis
      using pos True Cons.prems(2) by auto
  next
    case False
    then have npos: "\<not> js_positive (cmp x y)" using Cons.prems(1) by simp
    have "key z \<le> key y" if "z \<in> set ys" for z
      using Cons.prems(2) that by auto
    then have "key z \<le> key x" if "z \<in> set (y # ys)" for z
      using False that by fastforce
    then have "key z < key x \<or> (key x = key z \<and> x < z)" if "z \<in> set (y # ys)" for z
      using that Cons.prems(3) [of z] by fastforce
    then show ?thesis
      using npos Cons.prems(2) by auto
  qed
qed

lemma sort_js_upt_ranked:
  fixes key :: "nat \<Rightarrow> real"
  assumes "\<And>i j. i < n \<Longrightarrow> j < n \<Longrightarrow> js_positive (cmp i j) \<longleftrightarrow> key i < key j"
  shows "sorted_wrt (\<lambda>i j. key j < key i \<or> (key i = key j \<and> i < j)) (sort_js cmp [k..<n])"
proof (induction "n - k" arbitrary: k)
  case 0
  then show ?case by (simp add: sort_js_def)
next
  case (Suc d)
  then have kn: "k < n" by simp
  have unfold: "sort_js cmp [k..<n] = insort_by cmp k (sort_js cmp [Suc k..<n])"
    using kn by (simp add: sort_js_def upt_conv_Cons)
  have IH: "sorted_wrt (\<lambda>i j. key j < key i \<or> (key i = key j \<and> i < j))
              (sort_js cmp [Suc k..<n])"
    using Suc.hyps(2) by (intro Suc.hyps(1)) simp
  show ?case
    unfolding unfold
  proof (rule insort_by_ranked [OF _ IH])
    fix y assume "y \<in> set (sort_js cmp [Suc k..<n])"
    then have y: "Suc k \<le> y" "y < n" by (simp_all add: set_sort_js)
    show "js_positive (cmp k y) \<longleftrightarrow> key k < key y" using assms kn y by simp
    show "k < y" using y by simp
  qed
qed

lemma score_not_NaN_positive:
  assumes "score q store i \<noteq> NaN" "score q store j \<noteq> NaN"
  shows "js_positive (js_sub (score q store j) (score q store i))
         \<longleftrightarrow> js_key (score q store i) < js_key (score q store j)"
proof -
  have "js_positive (js_sub (score q store j) (score q store i))
        \<longleftrightarrow> js_less (score q store i) (score q store j)"
    using assms by (intro js_sub_positive) (simp_all add: score_def)
  then show ?thesis using assms by (simp add: js_less_key)
qed

lemma ranking_ranked:
  assumes "\<forall>i < length store. score q store i \<noteq> NaN"
  shows "sorted_wrt (outranks q store) (ranking q store)"
proof -
  let ?key = "\<lambda>i. js_key (score q store i)"
  have r: "ranking q store
           = sort_js (\<lambda>i j. js_sub (score q store j) (score q store i)) [0..<length store]"
    by (simp add: ranking_def score_def)
  have "sorted_wrt (\<lambda>i j. ?key j < ?key i \<or> (?key i = ?key j \<and> i < j)) (ranking q store)"
    unfolding r
    by (rule sort_js_upt_ranked) (use assms in \<open>simp add: score_not_NaN_positive\<close>)
  moreover have "outranks q store i j"
    if "i \<in> set (ranking q store)" "j \<in> set (ranking q store)"
       "?key j < ?key i \<or> (?key i = ?key j \<and> i < j)" for i j
  proof -
    have "i < length store" "j < length store" using that(1,2) by (simp_all add: r set_sort_js)
    then have "score q store i \<noteq> NaN" "score q store j \<noteq> NaN" using assms by simp_all
    then show ?thesis using that(3) by (simp add: outranks_def js_less_key js_key_eq)
  qed
  ultimately show ?thesis by (rule sorted_wrt_mono_rel [rotated])
qed

lemma mset_ranking: "mset (ranking q store) = mset [0..<length store]"
  by (simp add: ranking_def mset_sort_js)

lemma ranking_one_hot: "ranking [Num 0, Num 1, Num 0] one_hot_store = [1, 0, 2]"
  by (simp add: ranking_def one_hot_store_def sort_js_def cosineSimilarity_def component_def
        js_sub_def upt_conv_Cons)


lemma slice_to_0: "slice_to xs 0 = []"
  by (simp add: slice_to_def)

lemma slice_to_take: "0 \<le> k \<Longrightarrow> slice_to xs k = take (nat k) xs"
  by (simp add: slice_to_def)

lemma score_one_hot:
  "score [Num 0, Num 1, Num 0] one_hot_store 0 = Num 0"
  "score [Num 0, Num 1, Num 0] one_hot_store 1 = Num 1"
  "score [Num 0, Num 1, Num 0] one_hot_store 2 = Num 0"
  "score [Num 0, Num 0, Num 1] one_hot_store 0 = Num 0"
  "score [Num 0, Num 0, Num 1] one_hot_store 1 = Num 0"
  "score [Num 0, Num 0, Num 1] one_hot_store 2 = Num 1"
  by (simp_all add: score_def one_hot_store_def cosineSimilarity_def component_def upt_conv_Cons)

lemma ranking_signed: "ranking [Num tiny] signed_store = [0, 1]"
  by (simp add: ranking_def signed_store_def sort_js_def cosineSimilarity_tiny js_sub_def
        upt_conv_Cons)

lemma js_less_irrefl [simp]: "\<not> js_less a a"
  by (cases a) simp_all



subsection \<open>Properties of \<^verbatim>\<open>search\<close>\<close>

text \<open>
  Claim C3, as the code has it. The score of an entry is the double that
  \<open>cosineSimilarity\<close> returns for the query embedding and the entry's embedding. On a
  non-empty store on which no score is \<open>NaN\<close>, and for \<open>topK \<ge> 1\<close>, a search whose
  embedding call resolves returns the chunk texts of the first \<open>topK\<close> entries of the
  ranking. The ranking is a permutation of the store's indices in which an entry of
  higher score comes first and entries of equal score keep their insertion order.
  When \<open>topK\<close> is at least the size of the store, every entry is returned, in ranked
  order.
\<close>

theorem search_returns_topK_ranked:
  assumes "store \<noteq> []"
    and "embeddingFn query w = (Resolved q, w')"
    and "\<forall>e \<in> set store. cosineSimilarity q (embedding e) \<noteq> NaN"
    and "1 \<le> topK"
  shows "search store query embeddingFn topK w
           = (Resolved (map (\<lambda>i. chunk (store ! i)) (take (nat topK) (ranking q store))), w')
       \<and> mset (ranking q store) = mset [0..<length store]
       \<and> sorted_wrt (outranks q store) (ranking q store)
       \<and> (int (length store) \<le> topK \<longrightarrow>
            search store query embeddingFn topK w
              = (Resolved (map (\<lambda>i. chunk (store ! i)) (ranking q store)), w'))"
proof -
  have s: "search store query embeddingFn topK w
           = (Resolved (map (\<lambda>i. chunk (store ! i)) (take (nat topK) (ranking q store))), w')"
    using search_ranking [of store embeddingFn query w q w' topK] assms(1,2,4)
    by (simp add: slice_to_take)
  have "take (nat topK) (ranking q store) = ranking q store" if "int (length store) \<le> topK"
    using that by (simp add: ranking_def length_sort_js)
  moreover have "\<forall>i < length store. score q store i \<noteq> NaN"
    using assms(3) by (simp add: score_def)
  ultimately show ?thesis
    using s mset_ranking ranking_ranked [of store q] by simp
qed

theorem search_returns_topK_ranked_witness:
  "one_hot_store \<noteq> []
   \<and> table_stub [(''q'', [Num 0, Num 1, Num 0])] ''q'' 0 = (Resolved [Num 0, Num 1, Num 0], 1)
   \<and> list_all (\<lambda>e. cosineSimilarity [Num 0, Num 1, Num 0] (embedding e) \<noteq> NaN) one_hot_store
   \<and> (1::int) \<le> 2
   \<and> search one_hot_store ''q'' (table_stub [(''q'', [Num 0, Num 1, Num 0])]) 2 0
       = (Resolved [''b'', ''a''], 1)
   \<and> search one_hot_store ''q'' (table_stub [(''q'', [Num 0, Num 1, Num 0])]) 7 0
       = (Resolved [''b'', ''a'', ''c''], 1)"
proof -
  have h1: "one_hot_store \<noteq> []" by (simp add: one_hot_store_def)
  have h2: "table_stub [(''q'', [Num 0, Num 1, Num 0])] ''q'' 0
            = (Resolved [Num 0, Num 1, Num 0], 1)"
    by (simp add: table_stub_def)
  have h3: "\<forall>e \<in> set one_hot_store. cosineSimilarity [Num 0, Num 1, Num 0] (embedding e) \<noteq> NaN"
    using score_one_hot(1,2,3) by (simp add: score_def one_hot_store_def)
  have h4: "(1::int) \<le> 2" "(1::int) \<le> 7" by simp_all
  have c: "map (\<lambda>i. chunk (one_hot_store ! i)) [1, 0, 2] = [''b'', ''a'', ''c'']"
    by (simp add: one_hot_store_def)
  have t2: "search one_hot_store ''q'' (table_stub [(''q'', [Num 0, Num 1, Num 0])]) 2 0
            = (Resolved (map (\<lambda>i. chunk (one_hot_store ! i)) (take (nat 2) [1, 0, 2])), 1)"
    using search_returns_topK_ranked
            [of one_hot_store "table_stub [(''q'', [Num 0, Num 1, Num 0])]" "''q''" 0
                "[Num 0, Num 1, Num 0]" 1 2, OF h1 h2 h3 h4(1), THEN conjunct1]
    by (simp only: ranking_one_hot)
  have t7: "search one_hot_store ''q'' (table_stub [(''q'', [Num 0, Num 1, Num 0])]) 7 0
            = (Resolved (map (\<lambda>i. chunk (one_hot_store ! i)) (take (nat 7) [1, 0, 2])), 1)"
    using search_returns_topK_ranked
            [of one_hot_store "table_stub [(''q'', [Num 0, Num 1, Num 0])]" "''q''" 0
                "[Num 0, Num 1, Num 0]" 1 7, OF h1 h2 h3 h4(2), THEN conjunct1]
    by (simp only: ranking_one_hot)
  have r2: "search one_hot_store ''q'' (table_stub [(''q'', [Num 0, Num 1, Num 0])]) 2 0
            = (Resolved [''b'', ''a''], 1)"
    using t2 by (simp add: one_hot_store_def)
  have r7: "search one_hot_store ''q'' (table_stub [(''q'', [Num 0, Num 1, Num 0])]) 7 0
            = (Resolved [''b'', ''a'', ''c''], 1)"
    using t7 by (simp add: one_hot_store_def)
  show ?thesis
    by (intro conjI h1 h2 h3 [folded list_all_iff] h4(1) r2 r7)
qed

text \<open>
  The claim as stated, with the cosine similarity of the specification, fails where
  the doubles leave it: the square of the query's component underflows to zero, both
  scores are \<open>0\<close>, and the search returns the first entry, whose cosine similarity
  \<open>- 1\<close> is the lowest.
\<close>

theorem search_ranking_counterexample:
  "counting_stub [Num tiny] ''q'' 0 = (Resolved [Num tiny], 1)
   \<and> search signed_store ''q'' (counting_stub [Num tiny]) 1 0 = (Resolved [''a''], 1)
   \<and> map chunk signed_store = [''a'', ''b'']
   \<and> map embedding signed_store = [[Num (- 1)], [Num 1]]
   \<and> cosine [tiny] [- 1] = - 1
   \<and> cosine [tiny] [1] = 1"
proof -
  have ne: "signed_store \<noteq> []" by (simp add: signed_store_def)
  have call: "counting_stub [Num tiny] ''q'' 0 = (Resolved [Num tiny], 1)"
    by (simp add: counting_stub_def)
  have "search signed_store ''q'' (counting_stub [Num tiny]) 1 0
        = (Resolved (map (\<lambda>i. chunk (signed_store ! i)) (slice_to [0, 1] 1)), 1)"
    using search_ranking
            [of signed_store "counting_stub [Num tiny]" "''q''" 0 "[Num tiny]" 1 1, OF ne call]
    by (simp only: ranking_signed)
  then have s: "search signed_store ''q'' (counting_stub [Num tiny]) 1 0 = (Resolved [''a''], 1)"
    by (simp add: slice_to_take signed_store_def)
  show ?thesis
    using call s by (simp add: cosine_tiny) (simp add: signed_store_def)
qed

text \<open>
  Claim C5, as the code has it. A search on a store that holds no entries, for
  instance a store just constructed, resolves with the empty list and leaves the
  world of the embedding function as it was: the embedding function is not called.
\<close>

theorem search_empty_store_short_circuit:
  "search [] query embeddingFn topK w = (Resolved [], w)
   \<and> search new_VectorStore query embeddingFn topK w = (Resolved [], w)
   \<and> snd (search new_VectorStore query (counting_stub v) topK calls) = calls"
  by (simp add: search_def new_VectorStore_def)

text \<open>
  Claim C9. On a non-empty store a search with \<open>topK = 0\<close> calls the embedding function
  once, on the query: the world afterwards is the world after that one call. When the
  call resolves the search resolves with the empty list (when it rejects, so does the
  search). The short cut of the empty store does not apply.
\<close>

theorem search_topK_zero_still_embeds:
  assumes "store \<noteq> []"
  shows "snd (search store query embeddingFn 0 w) = snd (embeddingFn query w)
       \<and> fst (search store query embeddingFn 0 w)
           = (case fst (embeddingFn query w) of Rejected \<Rightarrow> Rejected | Resolved q \<Rightarrow> Resolved [])
       \<and> snd (search store query (counting_stub v) 0 calls) = Suc calls
       \<and> fst (search store query (counting_stub v) 0 calls) = Resolved []"
proof -
  have "search store query f 0 u
        = (case fst (f query u) of Rejected \<Rightarrow> Rejected | Resolved q \<Rightarrow> Resolved [],
           snd (f query u))" for f :: "'b EmbeddingFunction" and u
  proof (cases "f query u")
    case (Pair p u')
    show ?thesis
    proof (cases p)
      case (Resolved q)
      then show ?thesis
        using search_ranking [of store f query u q u' 0] assms Pair by (simp add: slice_to_0)
    next
      case Rejected
      then show ?thesis using assms Pair by (simp add: search_def)
    qed
  qed
  from this [of embeddingFn w] this [of "counting_stub v" calls]
  show ?thesis by (simp add: counting_stub_def)
qed

theorem search_topK_zero_still_embeds_witness:
  "one_hot_store \<noteq> []
   \<and> search one_hot_store ''q'' (counting_stub [Num 0, Num 1, Num 0]) 0 0 = (Resolved [], 1)"
  using search_topK_zero_still_embeds
          [of one_hot_store "''q''" "counting_stub [Num 0, Num 1, Num 0]" 0 "[Num 0, Num 1, Num 0]" 0]
  by (simp add: one_hot_store_def counting_stub_def prod_eq_iff)

text \<open>
  Claim C10. \<open>cosineSimilarity\<close> reads its second argument only at the indices of the
  first: the result is the same on \<open>b\<close> and on the first \<open>length a\<close> components of \<open>b\<close>,
  so components appended to a \<open>b\<close> at least as long as \<open>a\<close> change nothing. A search
  passes the query embedding first, so cutting every stored embedding to the length
  of the query embedding changes neither a score nor the result.
\<close>

theorem cosineSimilarity_ignores_trailing:
  "cosineSimilarity a b = cosineSimilarity a (take (length a) b)
   \<and> (length a \<le> length b \<longrightarrow> cosineSimilarity a (b @ extra) = cosineSimilarity a b)
   \<and> (\<forall>q w'. embeddingFn query w = (Resolved q, w') \<longrightarrow>
         search (map (\<lambda>e. e\<lparr>embedding := take (length q) (embedding e)\<rparr>) store)
                query embeddingFn topK w
         = search store query embeddingFn topK w)"
proof (intro conjI allI impI)
  show "cosineSimilarity a b = cosineSimilarity a (take (length a) b)"
    by (rule cosineSimilarity_take)
  show "cosineSimilarity a (b @ extra) = cosineSimilarity a b" if "length a \<le> length b"
    using that cosineSimilarity_take [of a "b @ extra"] cosineSimilarity_take [of a b]
    by simp
  show "search (map (\<lambda>e. e\<lparr>embedding := take (length q) (embedding e)\<rparr>) store)
               query embeddingFn topK w
        = search store query embeddingFn topK w"
    if "embeddingFn query w = (Resolved q, w')" for q w'
    using that cosineSimilarity_take [of q, symmetric]
    by (simp add: search_def comp_def)
qed

theorem cosineSimilarity_ignores_trailing_witness:
  "length [Num 1, Num 0] \<le> length [Num 0, Num 1]
   \<and> cosineSimilarity [Num 1, Num 0] ([Num 0, Num 1] @ [Num 5, Num 7])
       = cosineSimilarity [Num 1, Num 0] [Num 0, Num 1]
   \<and> table_stub [(''q'', [Num 1])] ''q'' 0 = (Resolved [Num 1], 1)
   \<and> search (map (\<lambda>e. e\<lparr>embedding := take (length [Num 1]) (embedding e)\<rparr>) repeated_store)
             ''q'' (table_stub [(''q'', [Num 1])]) 3 0
       = search repeated_store ''q'' (table_stub [(''q'', [Num 1])]) 3 0"
proof -
  have h: "table_stub [(''q'', [Num 1])] ''q'' 0 = (Resolved [Num 1], 1)"
    by (simp add: table_stub_def)
  show ?thesis
    using h
      cosineSimilarity_ignores_trailing
        [of "[Num 1, Num 0]" "[Num 0, Num 1]" "[Num 5, Num 7]" "table_stub [(''q'', [Num 1])]"
            "''q''" 0 repeated_store 3]
    by simp
qed




subsection \<open>Facts about \<^verbatim>\<open>create\<close>\<close>

lemma issue_calls_append:
  "issue_calls f (xs @ ys) w =
     (let (ps1, w1) = issue_calls f xs w; (ps2, w2) = issue_calls f ys w1
      in (ps1 @ ps2, w2))"
  by (induction xs arbitrary: w) (simp_all add: split_beta Let_def)

lemma length_issue_calls: "length (fst (issue_calls f xs w)) = length xs"
  by (induction xs arbitrary: w) (simp_all add: split_beta Let_def)

lemma promise_all_cases:
  "promise_all ps = (if Rejected \<in> set ps then Rejected else Resolved (resolved_values ps))"
proof (induction ps)
  case Nil
  show ?case by simp
next
  case (Cons p ps)
  then show ?case by (cases p) auto
qed

lemma length_resolved_values:
  "Rejected \<notin> set ps \<Longrightarrow> length (resolved_values ps) = length ps"
proof (induction ps)
  case Nil
  show ?case by simp
next
  case (Cons p ps)
  then show ?case by (cases p) auto
qed

lemma resolved_values_append:
  "resolved_values (ps @ qs) = resolved_values ps @ resolved_values qs"
proof (induction ps)
  case Nil
  show ?case by simp
next
  case (Cons p ps)
  then show ?case by (cases p) auto
qed

lemma map_Resolved_resolved_values:
  "Rejected \<notin> set ps \<Longrightarrow> map Resolved (resolved_values ps) = ps"
proof (induction ps)
  case Nil
  show ?case by simp
next
  case (Cons p ps)
  then show ?case by (cases p) auto
qed

lemma store_entries_append:
  "length cs = length vs \<Longrightarrow>
   store_entries (cs @ cs') (vs @ vs') = store_entries cs vs @ store_entries cs' vs'"
  by (simp add: store_entries_def)

lemma store_entries_Nil [simp]: "store_entries [] vs = []"
  by (simp add: store_entries_def)

lemma map_chunk_store_entries:
  "length vs = length cs \<Longrightarrow> map chunk (store_entries cs vs) = cs"
  by (simp add: store_entries_def comp_def split_beta map_fst_zip [unfolded comp_def])

lemma map_embedding_store_entries:
  "length vs = length cs \<Longrightarrow> map embedding (store_entries cs vs) = vs"
  by (simp add: store_entries_def comp_def split_beta map_snd_zip [unfolded comp_def])

lemma length_store_entries: "length (store_entries cs vs) = min (length cs) (length vs)"
  by (simp add: store_entries_def)

lemma store_entries_by_index:
  assumes "length vs = length cs"
  shows "map (\<lambda>index. \<lparr>chunk = cs ! index, embedding = vs ! index\<rparr>) [0..<length cs]
         = store_entries cs vs"
  by (rule nth_equalityI) (use assms in \<open>simp_all add: store_entries_def\<close>)

lemma slice_batch:
  assumes "i < length chunks"
  shows "slice chunks i (i + batchSize) = take batchSize (drop i chunks)"
proof -
  have "min (i + batchSize) (length chunks) - min i (length chunks)
        = min batchSize (length (drop i chunks))"
    using assms by simp
  moreover have "take (min batchSize (length (drop i chunks))) (drop i chunks)
                 = take batchSize (drop i chunks)"
    by (cases "batchSize \<le> length (drop i chunks)") (simp_all add: min_def)
  ultimately show ?thesis by (simp only: slice_def)
qed

lemma create_loop_step:
  assumes "i < length chunks"
    and "issue_calls f (take batchSize (drop i chunks)) w = (ps, w1)"
  shows "create_loop f onProgress chunks i store w events =
     (if Rejected \<in> set ps then (Rejected, store, w1, events)
      else create_loop f onProgress chunks (i + batchSize)
             (store @ store_entries (take batchSize (drop i chunks)) (resolved_values ps)) w1
             (if onProgress
              then events @ [progress_report (min (i + batchSize) (length chunks)) (length chunks)]
              else events))"
proof (cases "Rejected \<in> set ps")
  case True
  then show ?thesis
    using assms
    by (subst create_loop.simps) (simp add: slice_batch promise_all_cases)
next
  case False
  have "length ps = length (take batchSize (drop i chunks))"
    using length_issue_calls [of f "take batchSize (drop i chunks)" w] assms(2) by simp
  then have "length (resolved_values ps) = length (take batchSize (drop i chunks))"
    using False by (simp add: length_resolved_values)
  then have entries:
    "map (\<lambda>index. \<lparr>chunk = take batchSize (drop i chunks) ! index,
                   embedding = resolved_values ps ! index\<rparr>)
         [0..<length (take batchSize (drop i chunks))]
     = store_entries (take batchSize (drop i chunks)) (resolved_values ps)"
    by (rule store_entries_by_index)
  show ?thesis
    using assms False
    by (subst create_loop.simps)
       (simp add: slice_batch promise_all_cases entries progress_report_def Let_def
             del: length_take)
qed

lemma issue_calls_split:
  assumes "issue_calls f (take n xs) w = (ps1, w1)"
    and "issue_calls f (drop n xs) w1 = (ps2, w2)"
  shows "issue_calls f xs w = (ps1 @ ps2, w2)"
  using issue_calls_append [of f "take n xs" "drop n xs" w] assms by simp

lemma batches_left:
  "(batchSize * b < n) = (b < (n + 4) div 5)"
  by (simp add: batchSize_def) linarith

lemma create_loop_resolved:
  assumes "issue_calls f (drop (batchSize * b) chunks) w = (ps, wN)"
    and "Rejected \<notin> set ps"
  shows "create_loop f onProgress chunks (batchSize * b) store w events =
     (Resolved (),
      store @ store_entries (drop (batchSize * b) chunks) (resolved_values ps),
      wN,
      if onProgress
      then events @
           map (\<lambda>k. progress_report (min (batchSize * k) (length chunks)) (length chunks))
               [Suc b..<Suc ((length chunks + 4) div 5)]
      else events)"
  using assms
proof (induction "length chunks - batchSize * b" arbitrary: b store w events ps wN rule: less_induct)
  case less
  let ?D = "drop (batchSize * b) chunks"
  let ?report = "\<lambda>k. progress_report (min (batchSize * k) (length chunks)) (length chunks)"
  show ?case
  proof (cases "batchSize * b < length chunks")
    case False
    then have "?D = []" by simp
    then have "ps = []" "wN = w" using less.prems(1) by simp_all
    moreover have "[Suc b..<Suc ((length chunks + 4) div 5)] = []"
      using False by (simp add: batches_left)
    ultimately show ?thesis
      using False by (subst create_loop.simps) simp
  next
    case True
    obtain ps1 w1 where b1: "issue_calls f (take batchSize ?D) w = (ps1, w1)" by force
    obtain ps2 w2 where b2: "issue_calls f (drop batchSize ?D) w1 = (ps2, w2)" by force
    have "issue_calls f ?D w = (ps1 @ ps2, w2)" using b1 b2 by (rule issue_calls_split)
    then have ps: "ps = ps1 @ ps2" and wN: "wN = w2" using less.prems(1) by simp_all
    have ok1: "Rejected \<notin> set ps1" and ok2: "Rejected \<notin> set ps2"
      using less.prems(2) ps by simp_all
    have len1: "length ps1 = length (take batchSize ?D)"
      using length_issue_calls [of f "take batchSize ?D" w] b1 by simp
    then have len1': "length (take batchSize ?D) = length (resolved_values ps1)"
      using ok1 by (simp add: length_resolved_values)
    have next_drop: "drop (batchSize * Suc b) chunks = drop batchSize ?D"
      by (simp add: add.commute)
    have next_i: "batchSize * b + batchSize = batchSize * Suc b" by simp
    let ?store1 = "store @ store_entries (take batchSize ?D) (resolved_values ps1)"
    let ?events1 = "if onProgress then events @ [?report (Suc b)] else events"
    have step: "create_loop f onProgress chunks (batchSize * b) store w events
                = create_loop f onProgress chunks (batchSize * Suc b) ?store1 w1 ?events1"
      using create_loop_step [OF True b1, of onProgress store events] ok1
      by (simp only: next_i if_False)
    have IH: "create_loop f onProgress chunks (batchSize * Suc b) ?store1 w1 ?events1 =
       (Resolved (),
        ?store1 @ store_entries (drop (batchSize * Suc b) chunks) (resolved_values ps2),
        w2,
        if onProgress
        then ?events1 @ map ?report [Suc (Suc b)..<Suc ((length chunks + 4) div 5)]
        else ?events1)"
    proof (rule less.hyps)
      show "length chunks - batchSize * Suc b < length chunks - batchSize * b"
        using True by (simp add: batchSize_def)
      show "issue_calls f (drop (batchSize * Suc b) chunks) w1 = (ps2, w2)"
        using b2 by (simp only: next_drop)
      show "Rejected \<notin> set ps2" by (rule ok2)
    qed
    have entries: "?store1 @ store_entries (drop (batchSize * Suc b) chunks) (resolved_values ps2)
                   = store @ store_entries ?D (resolved_values ps)"
    proof -
      have "store_entries ?D (resolved_values ps1 @ resolved_values ps2)
            = store_entries (take batchSize ?D) (resolved_values ps1)
              @ store_entries (drop batchSize ?D) (resolved_values ps2)"
        using store_entries_append [OF len1', of "drop batchSize ?D" "resolved_values ps2"]
        by (simp only: append_take_drop_id)
      then show ?thesis
        by (simp only: ps resolved_values_append next_drop append_assoc)
    qed
    have "b < (length chunks + 4) div 5" using True by (simp add: batches_left)
    then have upt: "[Suc b..<Suc ((length chunks + 4) div 5)]
                    = Suc b # [Suc (Suc b)..<Suc ((length chunks + 4) div 5)]"
      by (simp add: upt_conv_Cons)
    show ?thesis
      unfolding step IH entries wN upt by simp
  qed
qed

lemma first_rejected_less:
  "Rejected \<in> set ps \<Longrightarrow> first_rejected ps < length ps"
  by (induction ps) (auto simp: first_rejected_def)

lemma create_loop_rejected:
  assumes "issue_calls f (drop (batchSize * b) chunks) w = (ps, wN)"
    and "Rejected \<in> set ps"
  shows "create_loop f onProgress chunks (batchSize * b) store w events =
     (Rejected,
      store @ store_entries (take (completed_before (first_rejected ps))
                                  (drop (batchSize * b) chunks))
                (resolved_values (take (completed_before (first_rejected ps)) ps)),
      snd (issue_calls f (take (completed_before (first_rejected ps) + batchSize)
                               (drop (batchSize * b) chunks)) w),
      if onProgress
      then events @
           map (\<lambda>k. progress_report (min (batchSize * k) (length chunks)) (length chunks))
               [Suc b..<Suc (b + first_rejected ps div batchSize)]
      else events)"
  using assms
proof (induction "length chunks - batchSize * b" arbitrary: b store w events ps wN rule: less_induct)
  case less
  let ?D = "drop (batchSize * b) chunks"
  let ?report = "\<lambda>k. progress_report (min (batchSize * k) (length chunks)) (length chunks)"
  have "ps \<noteq> []" using less.prems(2) by auto
  then have "?D \<noteq> []" using less.prems(1) by auto
  then have True: "batchSize * b < length chunks" by simp
  obtain ps1 w1 where b1: "issue_calls f (take batchSize ?D) w = (ps1, w1)" by force
  obtain ps2 w2 where b2: "issue_calls f (drop batchSize ?D) w1 = (ps2, w2)" by force
  have "issue_calls f ?D w = (ps1 @ ps2, w2)" using b1 b2 by (rule issue_calls_split)
  then have ps: "ps = ps1 @ ps2" and wN: "wN = w2" using less.prems(1) by simp_all
  have len1: "length ps1 = length (take batchSize ?D)"
    using length_issue_calls [of f "take batchSize ?D" w] b1 by simp
  show ?case
  proof (cases "Rejected \<in> set ps1")
    case rej: True
    then have "first_rejected ps1 < length ps1" by (rule first_rejected_less)
    moreover have "first_rejected ps = first_rejected ps1"
      using rej takeWhile_append1 [of Rejected ps1 "\<lambda>p. p \<noteq> Rejected" ps2]
      by (simp add: ps first_rejected_def)
    ultimately have "first_rejected ps < batchSize" using len1 by simp
    then have zero: "first_rejected ps div batchSize = 0" "completed_before (first_rejected ps) = 0"
      by (simp_all add: completed_before_def)
    show ?thesis
      using create_loop_step [OF True b1, of onProgress store events] rej b1
      by (simp add: zero)
  next
    case ok1: False
    then have rej2: "Rejected \<in> set ps2" using less.prems(2) ps by simp
    then have "ps2 \<noteq> []" by auto
    then have "drop batchSize ?D \<noteq> []" using b2 by auto
    then have full: "length (take batchSize ?D) = batchSize" by simp
    then have len5: "length ps1 = batchSize" using len1 by simp
    have len1': "length (take batchSize ?D) = length (resolved_values ps1)"
      using ok1 len1 by (simp add: length_resolved_values)
    have "takeWhile (\<lambda>p. p \<noteq> Rejected) (ps1 @ ps2) = ps1 @ takeWhile (\<lambda>p. p \<noteq> Rejected) ps2"
      using ok1 by (intro takeWhile_append2) auto
    then have fr: "first_rejected ps = batchSize + first_rejected ps2"
      by (simp add: ps first_rejected_def len5)
    have bpos: "0 < batchSize" by (simp add: batchSize_def)
    have frd: "first_rejected ps div batchSize = Suc (first_rejected ps2 div batchSize)"
      unfolding fr using bpos by simp
    have cb: "completed_before (first_rejected ps)
              = batchSize + completed_before (first_rejected ps2)"
      by (simp add: completed_before_def frd)
    have next_drop: "drop (batchSize * Suc b) chunks = drop batchSize ?D"
      by (simp add: add.commute)
    have next_i: "batchSize * b + batchSize = batchSize * Suc b" by simp
    let ?d2 = "completed_before (first_rejected ps2)"
    let ?store1 = "store @ store_entries (take batchSize ?D) (resolved_values ps1)"
    let ?events1 = "if onProgress then events @ [?report (Suc b)] else events"
    have step: "create_loop f onProgress chunks (batchSize * b) store w events
                = create_loop f onProgress chunks (batchSize * Suc b) ?store1 w1 ?events1"
      using create_loop_step [OF True b1, of onProgress store events] ok1
      by (simp only: next_i if_False)
    have IH: "create_loop f onProgress chunks (batchSize * Suc b) ?store1 w1 ?events1 =
       (Rejected,
        ?store1 @ store_entries (take ?d2 (drop (batchSize * Suc b) chunks))
                    (resolved_values (take ?d2 ps2)),
        snd (issue_calls f (take (?d2 + batchSize) (drop (batchSize * Suc b) chunks)) w1),
        if onProgress
        then ?events1 @ map ?report [Suc (Suc b)..<Suc (Suc b + first_rejected ps2 div batchSize)]
        else ?events1)"
    proof (rule less.hyps)
      show "length chunks - batchSize * Suc b < length chunks - batchSize * b"
        using True by (simp add: batchSize_def)
      show "issue_calls f (drop (batchSize * Suc b) chunks) w1 = (ps2, w2)"
        using b2 by (simp only: next_drop)
      show "Rejected \<in> set ps2" by (rule rej2)
    qed
    have takeD: "take (batchSize + ?d2) ?D = take batchSize ?D @ take ?d2 (drop batchSize ?D)"
      by (rule take_add)
    have takeps: "take (batchSize + ?d2) ps = ps1 @ take ?d2 ps2"
      by (simp add: ps len5)
    have entries:
      "?store1 @ store_entries (take ?d2 (drop (batchSize * Suc b) chunks))
                   (resolved_values (take ?d2 ps2))
       = store @ store_entries (take (completed_before (first_rejected ps)) ?D)
                   (resolved_values (take (completed_before (first_rejected ps)) ps))"
    proof -
      have "store_entries (take batchSize ?D @ take ?d2 (drop batchSize ?D))
              (resolved_values ps1 @ resolved_values (take ?d2 ps2))
            = store_entries (take batchSize ?D) (resolved_values ps1)
              @ store_entries (take ?d2 (drop batchSize ?D)) (resolved_values (take ?d2 ps2))"
        using len1' by (rule store_entries_append)
      then show ?thesis
        by (simp only: cb takeD takeps resolved_values_append next_drop append_assoc)
    qed
    have "take (batchSize + (?d2 + batchSize)) ?D
          = take batchSize ?D @ take (?d2 + batchSize) (drop batchSize ?D)"
      by (rule take_add)
    then have world:
      "snd (issue_calls f (take (completed_before (first_rejected ps) + batchSize) ?D) w)
       = snd (issue_calls f (take (?d2 + batchSize) (drop (batchSize * Suc b) chunks)) w1)"
      using b1 by (simp add: cb add.assoc issue_calls_append split_beta next_drop)
    have upt: "[Suc b..<Suc (b + first_rejected ps div batchSize)]
               = Suc b # [Suc (Suc b)..<Suc (Suc b + first_rejected ps2 div batchSize)]"
      by (simp add: frd upt_conv_Cons)
    show ?thesis
      unfolding step IH entries world upt by simp
  qed
qed

lemma create_unfold:
  "create this_store text f onProgress w
   = Some (create_loop f onProgress (reference_windows text 1000 200) 0 [] w [])"
proof -
  have "chunkText text 1000 200 = Some (reference_windows text 1000 200)"
    by (rule chunkText_reference) simp
  then show ?thesis by (simp add: create_def)
qed

lemma ceiling_batches: "nat \<lceil>real n / real batchSize\<rceil> = (n + 4) div 5"
proof -
  have "\<lceil>real n / real batchSize\<rceil> = \<lceil>of_int (int n) / (of_int 5 :: real)\<rceil>"
    by (simp add: batchSize_def)
  also have "\<dots> = - (- int n div 5)" by (rule ceiling_divide_eq_div)
  finally show ?thesis by linarith
qed

lemma progress_reports_alt:
  "progress_reports n
   = map (\<lambda>k. progress_report (min (batchSize * k) n) n) [Suc 0..<Suc ((n + 4) div 5)]"
  by (simp add: progress_reports_def ceiling_batches)

lemma create_resolved:
  assumes "issue_calls f (reference_windows text 1000 200) w = (ps, wN)"
    and "Rejected \<notin> set ps"
  shows "create this_store text f onProgress w =
     Some (Resolved (),
           store_entries (reference_windows text 1000 200) (resolved_values ps),
           wN,
           if onProgress then progress_reports (length (reference_windows text 1000 200))
           else [])"
  using create_loop_resolved [of f 0 "reference_windows text 1000 200" w ps wN onProgress "[]" "[]"]
    assms
  by (simp add: create_unfold progress_reports_alt)

lemma create_rejected:
  assumes "issue_calls f (reference_windows text 1000 200) w = (ps, wN)"
    and "Rejected \<in> set ps"
  shows "create this_store text f onProgress w =
     Some (Rejected,
           store_entries (take (completed_before (first_rejected ps))
                               (reference_windows text 1000 200))
             (resolved_values (take (completed_before (first_rejected ps)) ps)),
           snd (issue_calls f (take (completed_before (first_rejected ps) + batchSize)
                                    (reference_windows text 1000 200)) w),
           if onProgress
           then take (first_rejected ps div batchSize)
                  (progress_reports (length (reference_windows text 1000 200)))
           else [])"
proof -
  let ?n = "length (reference_windows text 1000 200)"
  have "length ps = ?n"
    using length_issue_calls [of f "reference_windows text 1000 200" w] assms(1) by simp
  then have "first_rejected ps < ?n" using first_rejected_less [OF assms(2)] by simp
  then have "first_rejected ps div batchSize \<le> (?n + 4) div 5"
    by (simp add: batchSize_def)
  then have "Suc 0 + first_rejected ps div batchSize \<le> Suc ((?n + 4) div 5)" by simp
  then have "take (first_rejected ps div batchSize) [Suc 0..<Suc ((?n + 4) div 5)]
             = [Suc 0..<Suc 0 + first_rejected ps div batchSize]"
    by (rule take_upt)
  then have "take (first_rejected ps div batchSize) [Suc 0..<Suc ((?n + 4) div 5)]
             = [Suc 0..<Suc (first_rejected ps div batchSize)]"
    by (simp only: plus_nat.add_Suc plus_nat.add_0)
  then have "take (first_rejected ps div batchSize) (progress_reports ?n)
        = map (\<lambda>k. progress_report (min (batchSize * k) ?n) ?n)
              [Suc 0..<Suc (first_rejected ps div batchSize)]"
    by (simp only: progress_reports_alt take_map)
  then show ?thesis
    using create_loop_rejected
            [of f 0 "reference_windows text 1000 200" w ps wN onProgress "[]" "[]"] assms
    by (simp add: create_unfold)
qed

lemma resolved_before_first_rejected:
  "Rejected \<notin> set (take (completed_before (first_rejected ps)) ps)"
proof -
  have "completed_before (first_rejected ps) \<le> first_rejected ps"
    by (simp add: completed_before_def)
  then have "set (take (completed_before (first_rejected ps)) ps)
             \<subseteq> set (take (first_rejected ps) ps)"
    by (rule set_take_subset_set_take)
  moreover have "take (first_rejected ps) ps = takeWhile (\<lambda>p. p \<noteq> Rejected) ps"
    unfolding first_rejected_def by (rule takeWhile_eq_take [symmetric])
  moreover have "Rejected \<notin> set (takeWhile (\<lambda>p. p \<noteq> Rejected) ps)"
    by (auto dest: set_takeWhileD)
  ultimately show ?thesis by auto
qed

lemma last_window_eqI:
  assumes "overlap < chunkSize" "text \<noteq> []"
    and "reaches_end text chunkSize overlap m"
    and "\<And>k. k < m \<Longrightarrow> \<not> reaches_end text chunkSize overlap k"
  shows "last_window text chunkSize overlap = m"
proof (rule ccontr)
  assume ne: "last_window text chunkSize overlap \<noteq> m"
  show False
  proof (cases "last_window text chunkSize overlap < m")
    case True
    then show False using assms(4) last_window_reaches(1) [OF assms(1,2)] by blast
  next
    case False
    then have "m < last_window text chunkSize overlap" using ne by simp
    then show False using before_last_window assms(3) by blast
  qed
qed

lemma reference_windows_long_text:
  "reference_windows long_text 1000 200
   = [long_chunk, long_chunk, long_chunk, long_chunk, long_chunk, last_chunk]"
proof -
  have ne: "long_text \<noteq> []" by (simp add: long_text_def)
  have "last_window long_text 1000 200 = 5"
  proof (rule last_window_eqI)
    show "(200::nat) < 1000" by simp
    show "long_text \<noteq> []" by (rule ne)
    show "reaches_end long_text 1000 200 5" by (simp add: reaches_end_def long_text_def)
    show "\<not> reaches_end long_text 1000 200 k" if "k < 5" for k
      using that by (simp add: reaches_end_def long_text_def)
  qed
  moreover have "[0..<Suc 5] = [0, 1, 2, 3, 4, 5]" by (simp add: upt_rec)
  ultimately show ?thesis
    using ne
    by (simp add: reference_windows_def window_def long_text_def long_chunk_def last_chunk_def)
qed

lemma length_progress_reports: "length (progress_reports n) = (n + 4) div 5"
  by (simp add: progress_reports_alt)

lemma nth_progress_reports:
  assumes "1 \<le> k" "k \<le> (n + 4) div 5"
  shows "progress_reports n ! (k - 1) = progress_report (min (batchSize * k) n) n"
proof -
  have "k - 1 < length [Suc 0..<Suc ((n + 4) div 5)]" using assms by simp
  moreover have "[Suc 0..<Suc ((n + 4) div 5)] ! (k - 1) = k"
    using assms by (simp add: nth_upt del: upt_Suc)
  ultimately show ?thesis
    by (simp only: progress_reports_alt nth_map)
qed

lemma nearest_one: "nearest 1 = 1"
  using nearest_of_int [of 1] by simp

lemma nearest_hundred: "nearest 100 = 100"
  using nearest_of_int [of 100] by simp

lemma percentage_progress_report:
  assumes "0 < n" "p \<le> n"
  shows "percentage (progress_report p n)
         = Num (of_int \<lfloor>nearest (nearest (real p / real n) * 100) + 1 / 2\<rfloor>)"
    and "0 \<le> nearest (nearest (real p / real n) * 100)"
    and "nearest (nearest (real p / real n) * 100) \<le> 100"
proof -
  define r where "r = nearest (real p / real n)"
  have q: "0 \<le> real p / real n" "real p / real n \<le> 1" using assms by simp_all
  have one: "(1::real) < 2 ^ 1024"
  proof -
    have "(1::real) < 2 ^ 1" by simp
    also have "\<dots> \<le> 2 ^ 1024" by (rule power_increasing) simp_all
    finally show ?thesis .
  qed
  have hundred: "(100::real) < 2 ^ 1024"
  proof -
    have "(100::real) < 2 ^ 7" by simp
    also have "\<dots> \<le> 2 ^ 1024" by (rule power_increasing) simp_all
    finally show ?thesis .
  qed
  have d: "fl (real p / real n) = Num r" and r: "0 \<le> r" "r \<le> 1"
    unfolding r_def using fl_bounded [OF q nearest_one one] by simp_all
  have m: "0 \<le> r * 100" "r * 100 \<le> 100" using r by simp_all
  have f: "fl (r * 100) = Num (nearest (r * 100))"
    and b: "0 \<le> nearest (r * 100)" "nearest (r * 100) \<le> 100"
    using fl_bounded [OF m nearest_hundred hundred] by simp_all
  have "js_div (Num (real p)) (Num (real n)) = Num r" using assms(1) d by simp
  then have "js_mul (js_div (Num (real p)) (Num (real n))) (Num 100) = Num (nearest (r * 100))"
    using f by simp
  then show "percentage (progress_report p n)
             = Num (of_int \<lfloor>nearest (nearest (real p / real n) * 100) + 1 / 2\<rfloor>)"
    by (simp add: progress_report_def r_def)
  show "0 \<le> nearest (nearest (real p / real n) * 100)" using b(1) by (simp only: r_def)
  show "nearest (nearest (real p / real n) * 100) \<le> 100" using b(2) by (simp only: r_def)
qed

lemma percentage_range:
  assumes "0 < n" "p \<le> n"
  shows "\<exists>c::int. percentage (progress_report p n) = Num (of_int c) \<and> 0 \<le> c \<and> c \<le> 100"
proof -
  define x where "x = nearest (nearest (real p / real n) * 100)"
  have x: "0 \<le> x" "x \<le> 100"
    unfolding x_def using percentage_progress_report(2,3) [OF assms] by simp_all
  have "0 \<le> \<lfloor>x + 1 / 2\<rfloor>" using x(1) by simp
  moreover have "\<lfloor>x + 1 / 2\<rfloor> \<le> 100" using x(2) by (simp add: floor_le_iff)
  moreover have "percentage (progress_report p n) = Num (of_int \<lfloor>x + 1 / 2\<rfloor>)"
    unfolding x_def by (rule percentage_progress_report(1) [OF assms])
  ultimately show ?thesis by blast
qed

lemma percentage_mono:
  assumes "0 < n" "j \<le> k"
  shows "js_le (percentage (progress_report (min (batchSize * j) n) n))
               (percentage (progress_report (min (batchSize * k) n) n))"
proof -
  let ?p = "min (batchSize * j) n" and ?q = "min (batchSize * k) n"
  have "?p \<le> ?q" using assms(2) by (simp add: min.coboundedI1)
  then have "real ?p / real n \<le> real ?q / real n"
    using assms(1) by (simp add: divide_right_mono)
  moreover have "0 \<le> real ?p / real n" by simp
  ultimately have le: "nearest (real ?p / real n) \<le> nearest (real ?q / real n)"
    by (intro nearest_mono)
  have "0 \<le> nearest (real ?p / real n)" by (rule nearest_nonneg) simp
  then have "nearest (nearest (real ?p / real n) * 100)
             \<le> nearest (nearest (real ?q / real n) * 100)"
    using le by (intro nearest_mono) simp_all
  then have "\<lfloor>nearest (nearest (real ?p / real n) * 100) + 1 / 2\<rfloor>
             \<le> \<lfloor>nearest (nearest (real ?q / real n) * 100) + 1 / 2\<rfloor>"
    by (intro floor_mono) simp
  then show ?thesis
    using percentage_progress_report(1) [OF assms(1), of ?p]
      percentage_progress_report(1) [OF assms(1), of ?q]
    by (simp add: js_le_def)
qed

lemma sorted_progress_reports:
  assumes "0 < n"
  shows "sorted_wrt js_le (map percentage (progress_reports n))"
proof -
  let ?g = "\<lambda>k. percentage (progress_report (min (batchSize * k) n) n)"
  have "sorted_wrt (<) [Suc 0..<Suc ((n + 4) div 5)]" by (rule sorted_wrt_upt)
  then have "sorted_wrt (\<lambda>j k. js_le (?g j) (?g k)) [Suc 0..<Suc ((n + 4) div 5)]"
    by (rule sorted_wrt_mono_rel [rotated]) (simp add: percentage_mono [OF assms])
  then have "sorted_wrt js_le (map ?g [Suc 0..<Suc ((n + 4) div 5)])"
    by (simp only: sorted_wrt_map)
  then show ?thesis by (simp only: progress_reports_alt map_map comp_def)
qed

lemma percentage_all:
  assumes "0 < n"
  shows "percentage (progress_report n n) = Num 100"
proof -
  have "real n / real n = 1" using assms by simp
  then have "percentage (progress_report n n) = Num (of_int \<lfloor>nearest (nearest 1 * 100) + 1 / 2\<rfloor>)"
    using percentage_progress_report(1) [OF assms, of n] by simp
  also have "\<dots> = Num 100" by (simp add: nearest_one nearest_hundred)
  finally show ?thesis .
qed

lemma last_progress_reports:
  assumes "0 < n"
  shows "percentage (last (progress_reports n)) = Num 100"
proof -
  let ?m = "(n + 4) div 5"
  have m: "0 < ?m" using assms by simp
  then have "[Suc 0..<Suc ?m] \<noteq> []" by simp
  moreover have "last [Suc 0..<Suc ?m] = ?m" using m by (simp del: upt_Suc)
  ultimately have "last (progress_reports n) = progress_report (min (batchSize * ?m) n) n"
    unfolding progress_reports_alt by (metis (no_types, lifting) last_map)
  moreover have "min (batchSize * ?m) n = n" by (simp add: batchSize_def)
  ultimately show ?thesis using percentage_all [OF assms] by simp
qed

lemma create_resolved_only_if:
  assumes "create this_store text f onProgress w = Some (Resolved (), store', w', events)"
    and "issue_calls f (reference_windows text 1000 200) w = (ps, wN)"
  shows "Rejected \<notin> set ps"
proof
  assume "Rejected \<in> set ps"
  from create_rejected [OF assms(2) this, of this_store onProgress] assms(1)
  show False by simp
qed

lemma create_resolved_store:
  assumes "create this_store text f onProgress w = Some (Resolved (), store', w', events)"
  shows "map chunk store' = reference_windows text 1000 200"
    and "map (\<lambda>e. Resolved (embedding e)) store'
         = fst (issue_calls f (reference_windows text 1000 200) w)"
    and "w' = snd (issue_calls f (reference_windows text 1000 200) w)"
    and "events = (if onProgress then progress_reports (length store') else [])"
proof -
  let ?chunks = "reference_windows text 1000 200"
  obtain ps wN where calls: "issue_calls f ?chunks w = (ps, wN)" by force
  have ok: "Rejected \<notin> set ps" using assms calls by (rule create_resolved_only_if)
  have "length ps = length ?chunks"
    using length_issue_calls [of f ?chunks w] calls by simp
  then have len: "length (resolved_values ps) = length ?chunks"
    using ok by (simp add: length_resolved_values)
  have r: "store' = store_entries ?chunks (resolved_values ps)" "w' = wN"
          "events = (if onProgress then progress_reports (length ?chunks) else [])"
    using create_resolved [OF calls ok, of this_store onProgress] assms by simp_all
  show c: "map chunk store' = ?chunks"
    unfolding r(1) using len by (rule map_chunk_store_entries)
  have "map embedding store' = resolved_values ps"
    unfolding r(1) using len by (rule map_embedding_store_entries)
  then have "map Resolved (map embedding store') = ps"
    using ok by (simp add: map_Resolved_resolved_values)
  then show "map (\<lambda>e. Resolved (embedding e)) store' = fst (issue_calls f ?chunks w)"
    by (simp add: calls comp_def)
  show "w' = snd (issue_calls f ?chunks w)" by (simp add: r(2) calls)
  have "length store' = length ?chunks" using c by (metis length_map)
  then show "events = (if onProgress then progress_reports (length store') else [])"
    using r(3) by simp
qed

lemma issue_calls_counting:
  "issue_calls (counting_stub v) chunks w = (replicate (length chunks) (Resolved v), w + length chunks)"
  by (induction chunks arbitrary: w) (simp_all add: counting_stub_def)

lemma resolved_values_replicate [simp]:
  "resolved_values (replicate n (Resolved v)) = replicate n v"
  by (induction n) simp_all

lemma calls_long_text_counting:
  "issue_calls (counting_stub [Num 1]) (reference_windows long_text 1000 200) 0
   = ([Resolved [Num 1], Resolved [Num 1], Resolved [Num 1], Resolved [Num 1], Resolved [Num 1],
       Resolved [Num 1]], 6)"
  by (simp add: reference_windows_long_text counting_stub_def)

lemma calls_long_text_failing:
  "issue_calls (failing_from 5) (reference_windows long_text 1000 200) 0
   = ([Resolved [Num 1], Resolved [Num 1], Resolved [Num 1], Resolved [Num 1], Resolved [Num 1],
       Rejected], 6)"
  by (simp add: reference_windows_long_text failing_from_def)

lemma progress_reports_6: "progress_reports 6 = [progress_report 5 6, progress_report 6 6]"
proof -
  have "[Suc 0..<Suc ((6 + 4) div 5)] = [1, 2]" by (simp add: upt_rec)
  then show ?thesis by (simp add: progress_reports_alt batchSize_def)
qed

lemma nearest_five_sixths: "nearest (5 / 6) = 7505999378950827 / 2 ^ 53"
proof -
  have "nearest (5 / 6) = 2 powi (- 1 - 52) * of_int (rne ((5 / 6) / 2 powi (- 1 - 52)))"
    by (rule nearest_normal) (simp_all add: power_int_minus)
  also have "\<dots> = 7505999378950827 / 2 ^ 53"
    by (simp add: rne_def power_int_minus field_simps)
  finally show ?thesis .
qed

lemma nearest_five_sixths_hundred:
  "nearest (7505999378950827 / 2 ^ 53 * 100) = 5864062014805334 / 2 ^ 46"
proof -
  have "nearest (7505999378950827 / 2 ^ 53 * 100)
        = 2 powi (6 - 52) * of_int (rne ((7505999378950827 / 2 ^ 53 * 100) / 2 powi (6 - 52)))"
    by (rule nearest_normal) (simp_all add: power_int_minus)
  also have "\<dots> = 5864062014805334 / 2 ^ 46"
    by (simp add: rne_def power_int_minus field_simps)
  finally show ?thesis .
qed

lemma percentages_6:
  "percentage (progress_report 5 6) = Num 83" "percentage (progress_report 6 6) = Num 100"
proof -
  have "percentage (progress_report 5 6)
        = Num (of_int \<lfloor>nearest (nearest (real 5 / real 6) * 100) + 1 / 2\<rfloor>)"
    by (rule percentage_progress_report) simp_all
  also have "\<dots> = Num (of_int \<lfloor>(5864062014805334 / 2 ^ 46 :: real) + 1 / 2\<rfloor>)"
    by (simp only: of_nat_numeral nearest_five_sixths nearest_five_sixths_hundred)
  also have "\<dots> = Num 83" by simp
  finally show "percentage (progress_report 5 6) = Num 83" .
  show "percentage (progress_report 6 6) = Num 100" by (rule percentage_all) simp
qed

lemma stage_5_of_6: "stage (progress_report 5 6) = ''Embedding content... (5/6)''"
  by (simp add: progress_report_def) code_simp

lemma length_windows_long_text: "length (reference_windows long_text 1000 200) = 6"
  by (simp add: reference_windows_long_text)

lemma create_long_text_counting:
  "create this_store long_text (counting_stub [Num 1]) onProgress 0
   = Some (Resolved (), first_batch_store @ [\<lparr>chunk = last_chunk, embedding = [Num 1]\<rparr>], 6,
           if onProgress then [progress_report 5 6, progress_report 6 6] else [])"
proof -
  have "Rejected \<notin> set [Resolved [Num 1], Resolved [Num 1], Resolved [Num 1], Resolved [Num 1],
                         Resolved [Num 1], Resolved [Num 1]]"
    by simp
  from create_resolved [OF calls_long_text_counting this, of this_store onProgress,
         unfolded length_windows_long_text progress_reports_6]
  show ?thesis
    by (simp add: reference_windows_long_text store_entries_def first_batch_store_def)
qed

lemma create_long_text_failing:
  "create this_store long_text (failing_from 5) onProgress 0
   = Some (Rejected, first_batch_store, 6, if onProgress then [progress_report 5 6] else [])"
proof -
  let ?ps = "[Resolved [Num 1], Resolved [Num 1], Resolved [Num 1], Resolved [Num 1],
              Resolved [Num 1], Rejected]"
  have rej: "Rejected \<in> set ?ps" by simp
  have fr: "first_rejected ?ps = 5" by (simp add: first_rejected_def)
  have cb: "completed_before 5 = 5" "5 div batchSize = 1"
    by (simp_all add: completed_before_def batchSize_def)
  from create_rejected [OF calls_long_text_failing rej, of this_store onProgress,
         unfolded length_windows_long_text progress_reports_6 fr cb]
  show ?thesis
    by (simp add: reference_windows_long_text store_entries_def first_batch_store_def
          batchSize_def failing_from_def)
qed

lemma score_first_batch:
  assumes "i < 5"
  shows "score [Num 1] first_batch_store i = Num 1"
proof -
  have "embedding (first_batch_store ! i) = [Num 1]"
    using assms by (auto simp: first_batch_store_def less_Suc_eq numeral_eq_Suc)
  moreover have "cosineSimilarity [Num 1] [Num 1] = Num 1"
    by (simp add: cosineSimilarity_def component_def)
  ultimately show ?thesis by (simp add: score_def)
qed

lemma ranking_first_batch: "ranking [Num 1] first_batch_store = [0, 1, 2, 3, 4]"
proof -
  have l: "length first_batch_store = 5" by (simp add: first_batch_store_def)
  have "[0..<5] = [0, 1, 2, 3, 4]" by (simp add: upt_conv_Cons)
  then show ?thesis
    by (simp add: ranking_def l sort_js_def score_first_batch [unfolded score_def] js_sub_def)
qed

lemma reference_windows_hello: "reference_windows ''hello'' 1000 200 = [''hello'']"
  by (rule reference_windows_short) simp_all

lemma length_windows_book_text: "length (reference_windows book_text 1000 200) = 200"
proof -
  have ne: "book_text \<noteq> []" by (simp add: book_text_def)
  have "int (length (reference_windows book_text 1000 200))
        = max 1 \<lceil>(real (length book_text) - real 200) / (real 1000 - real 200)\<rceil>"
    by (rule reference_windows_count) (simp_all add: ne)
  also have "\<dots> = 200" by (simp add: book_text_def)
  finally show ?thesis by simp
qed

lemma create_book_text:
  "create this_store book_text (counting_stub v) True 0
   = Some (Resolved (),
           store_entries (reference_windows book_text 1000 200) (replicate 200 v),
           200, progress_reports 200)"
proof -
  let ?chunks = "reference_windows book_text 1000 200"
  have c: "issue_calls (counting_stub v) ?chunks 0 = (replicate 200 (Resolved v), 200)"
    by (simp add: issue_calls_counting length_windows_book_text)
  have "Rejected \<notin> set (replicate 200 (Resolved v))" by simp
  from create_resolved [OF c this, of this_store True]
  show ?thesis by (simp add: length_windows_book_text)
qed

lemma progress_reports_200_22: "progress_reports 200 ! 22 = progress_report 115 200"
  using nth_progress_reports [of 23 200] by (simp add: batchSize_def)

lemma nearest_115_200: "nearest (115 / 200) = 5179139571476070 / 2 ^ 53"
proof -
  have "nearest (115 / 200) = 2 powi (- 1 - 52) * of_int (rne ((115 / 200) / 2 powi (- 1 - 52)))"
    by (rule nearest_normal) (simp_all add: power_int_minus)
  also have "\<dots> = 5179139571476070 / 2 ^ 53"
    by (simp add: rne_def power_int_minus field_simps)
  finally show ?thesis .
qed

lemma nearest_115_200_hundred:
  "nearest (5179139571476070 / 2 ^ 53 * 100) = 8092405580431359 / 2 ^ 47"
proof -
  have "nearest (5179139571476070 / 2 ^ 53 * 100)
        = 2 powi (5 - 52) * of_int (rne ((5179139571476070 / 2 ^ 53 * 100) / 2 powi (5 - 52)))"
    by (rule nearest_normal) (simp_all add: power_int_minus)
  also have "\<dots> = 8092405580431359 / 2 ^ 47"
    by (simp add: rne_def power_int_minus field_simps)
  finally show ?thesis .
qed

lemma percentage_115_200: "percentage (progress_report 115 200) = Num 57"
proof -
  have "percentage (progress_report 115 200)
        = Num (of_int \<lfloor>nearest (nearest (real 115 / real 200) * 100) + 1 / 2\<rfloor>)"
    by (rule percentage_progress_report) simp_all
  also have "\<dots> = Num (of_int \<lfloor>(8092405580431359 / 2 ^ 47 :: real) + 1 / 2\<rfloor>)"
    by (simp only: of_nat_numeral nearest_115_200 nearest_115_200_hundred)
  also have "\<dots> = Num 57" by simp
  finally show ?thesis .
qed

subsection \<open>Properties of \<^verbatim>\<open>create\<close>\<close>

text \<open>
  Claim C6. After a successful \<open>create\<close> the chunks of the store are the chunks the
  chunker produces on the text, in the same order, whatever the store held before.
  The embedding of entry \<open>i\<close> is the value of the \<open>i\<close>-th embedding call, which was made
  on chunk \<open>i\<close>: the batches leave no trace in the order.
\<close>

theorem create_preserves_chunk_order:
  assumes "create this_store text f onProgress w = Some (Resolved (), store', w', events)"
  shows "chunkText text 1000 200 = Some (map chunk store')
       \<and> (\<exists>chunks. chunkText text 1000 200 = Some chunks \<and> length store' = length chunks
              \<and> (\<forall>i < length chunks. chunk (store' ! i) = chunks ! i))
       \<and> map (\<lambda>e. Resolved (embedding e)) store' = fst (issue_calls f (map chunk store') w)
       \<and> w' = snd (issue_calls f (map chunk store') w)"
proof -
  have c: "map chunk store' = reference_windows text 1000 200"
    using assms by (rule create_resolved_store)
  have ct: "chunkText text 1000 200 = Some (map chunk store')"
    unfolding c by (rule chunkText_reference) simp
  have "length store' = length (map chunk store')
        \<and> (\<forall>i < length (map chunk store'). chunk (store' ! i) = map chunk store' ! i)"
    by simp
  then have "\<exists>chunks. chunkText text 1000 200 = Some chunks \<and> length store' = length chunks
              \<and> (\<forall>i < length chunks. chunk (store' ! i) = chunks ! i)"
    using ct by blast
  then show ?thesis
    using ct create_resolved_store(2,3) [OF assms] by (simp add: c)
qed

theorem create_preserves_chunk_order_witness:
  "create first_batch_store long_text (counting_stub [Num 1]) False 0
     = Some (Resolved (), first_batch_store @ [\<lparr>chunk = last_chunk, embedding = [Num 1]\<rparr>], 6, [])
   \<and> chunkText long_text 1000 200
     = Some (map chunk (first_batch_store @ [\<lparr>chunk = last_chunk, embedding = [Num 1]\<rparr>]))
   \<and> map chunk (first_batch_store @ [\<lparr>chunk = last_chunk, embedding = [Num 1]\<rparr>])
     = [long_chunk, long_chunk, long_chunk, long_chunk, long_chunk, last_chunk]"
proof -
  have h: "create first_batch_store long_text (counting_stub [Num 1]) False 0
     = Some (Resolved (), first_batch_store @ [\<lparr>chunk = last_chunk, embedding = [Num 1]\<rparr>], 6, [])"
    using create_long_text_counting [of first_batch_store False] by simp
  have c: "map chunk (first_batch_store @ [\<lparr>chunk = last_chunk, embedding = [Num 1]\<rparr>])
     = [long_chunk, long_chunk, long_chunk, long_chunk, long_chunk, last_chunk]"
    by (simp add: first_batch_store_def)
  show ?thesis
    by (intro conjI h c create_preserves_chunk_order [OF h, THEN conjunct1])
qed

text \<open>
  Claim C7, as the code has it. During a successful \<open>create\<close> over \<open>N \<ge> 1\<close> chunks, with
  \<open>onProgress\<close> supplied, the callback is called \<open>\<lceil>N / 5\<rceil>\<close> times, the \<open>k\<close>-th time with
  the percentage \<^verbatim>\<open>Math.round((processedCount / N) * 100)\<close> for
  \<open>processedCount = min (5 * k) N\<close>, the quotient and the product each rounded to a
  double. Every percentage is an integer from 0 to 100, the percentages never
  decrease and the last is 100.
\<close>

theorem create_progress_monotone:
  assumes "create this_store text f True w = Some (Resolved (), store', w', events)"
    and "text \<noteq> []"
  shows "1 \<le> length store'
       \<and> events = progress_reports (length store')
       \<and> int (length events) = \<lceil>real (length store') / 5\<rceil>
       \<and> (\<forall>k. 1 \<le> k \<and> k \<le> length events \<longrightarrow>
             percentage (events ! (k - 1))
               = js_round (js_mul (js_div (Num (real (min (5 * k) (length store'))))
                                          (Num (real (length store'))))
                                  (Num 100))
             \<and> (\<exists>c::int. percentage (events ! (k - 1)) = Num (of_int c) \<and> 0 \<le> c \<and> c \<le> 100))
       \<and> sorted_wrt js_le (map percentage events)
       \<and> percentage (last events) = Num 100"
proof -
  let ?n = "length store'"
  have "map chunk store' = reference_windows text 1000 200"
    using assms(1) by (rule create_resolved_store)
  then have "?n = length (reference_windows text 1000 200)" by (metis length_map)
  then have pos: "0 < ?n" using assms(2) by (simp add: reference_windows_def)
  have ev: "events = progress_reports ?n"
    using create_resolved_store(4) [OF assms(1)] by simp
  have "0 \<le> \<lceil>real ?n / real batchSize\<rceil>" by (simp add: batchSize_def)
  then have "int ((?n + 4) div 5) = \<lceil>real ?n / real batchSize\<rceil>"
    using ceiling_batches [of ?n] by linarith
  then have len: "int (length events) = \<lceil>real ?n / 5\<rceil>"
    by (simp add: ev length_progress_reports batchSize_def)
  have nth: "percentage (events ! (k - 1))
               = js_round (js_mul (js_div (Num (real (min (5 * k) ?n))) (Num (real ?n))) (Num 100))
             \<and> (\<exists>c::int. percentage (events ! (k - 1)) = Num (of_int c) \<and> 0 \<le> c \<and> c \<le> 100)"
    if "1 \<le> k \<and> k \<le> length events" for k
  proof -
    have e: "events ! (k - 1) = progress_report (min (5 * k) ?n) ?n"
      using that nth_progress_reports [of k ?n]
      by (simp add: ev length_progress_reports batchSize_def)
    have "min (5 * k) ?n \<le> ?n" by simp
    from percentage_range [OF pos this] show ?thesis
      unfolding e by (simp add: progress_report_def)
  qed
  have one: "1 \<le> ?n" using pos by linarith
  have s: "sorted_wrt js_le (map percentage events)"
    unfolding ev by (rule sorted_progress_reports [OF pos])
  have l: "percentage (last events) = Num 100"
    unfolding ev by (rule last_progress_reports [OF pos])
  have all: "\<forall>k. 1 \<le> k \<and> k \<le> length events \<longrightarrow>
             percentage (events ! (k - 1))
               = js_round (js_mul (js_div (Num (real (min (5 * k) ?n))) (Num (real ?n))) (Num 100))
             \<and> (\<exists>c::int. percentage (events ! (k - 1)) = Num (of_int c) \<and> 0 \<le> c \<and> c \<le> 100)"
    using nth by blast
  show ?thesis
    by (intro conjI one ev len all s l)
qed

theorem create_progress_monotone_witness:
  "create new_VectorStore long_text (counting_stub [Num 1]) True 0
     = Some (Resolved (), first_batch_store @ [\<lparr>chunk = last_chunk, embedding = [Num 1]\<rparr>], 6,
             [progress_report 5 6, progress_report 6 6])
   \<and> long_text \<noteq> []
   \<and> map percentage [progress_report 5 6, progress_report 6 6] = [Num 83, Num 100]
   \<and> int (length [progress_report 5 6, progress_report 6 6])
     = \<lceil>real (length (first_batch_store @ [\<lparr>chunk = last_chunk, embedding = [Num 1]\<rparr>])) / 5\<rceil>
   \<and> sorted_wrt js_le (map percentage [progress_report 5 6, progress_report 6 6])
   \<and> percentage (last [progress_report 5 6, progress_report 6 6]) = Num 100"
proof -
  have h: "create new_VectorStore long_text (counting_stub [Num 1]) True 0
     = Some (Resolved (), first_batch_store @ [\<lparr>chunk = last_chunk, embedding = [Num 1]\<rparr>], 6,
             [progress_report 5 6, progress_report 6 6])"
    using create_long_text_counting [of new_VectorStore True] by simp
  have ne: "long_text \<noteq> []" by (simp add: long_text_def)
  have p: "map percentage [progress_report 5 6, progress_report 6 6] = [Num 83, Num 100]"
    by (simp add: percentages_6)
  note t = create_progress_monotone [OF h ne]
  show ?thesis
    by (intro conjI h ne p t [THEN conjunct2, THEN conjunct2, THEN conjunct1]
          t [THEN conjunct2, THEN conjunct2, THEN conjunct2, THEN conjunct2, THEN conjunct1]
          t [THEN conjunct2, THEN conjunct2, THEN conjunct2, THEN conjunct2, THEN conjunct2])
qed

text \<open>
  The claim as stated, with the percentage rounded from the exact quotient, fails on a
  text of 200 chunks: after the 23rd batch 115 chunks are processed, and
  \<open>115 / 200 * 100 = 57.5\<close> rounds to 58, but the double nearest to \<open>115 / 200\<close> times 100
  is the double just below \<open>57.5\<close>, and the callback receives 57.
\<close>

theorem create_progress_counterexample:
  "create new_VectorStore book_text (counting_stub [Num 1]) True 0
     = Some (Resolved (),
             store_entries (reference_windows book_text 1000 200) (replicate 200 [Num 1]),
             200, progress_reports 200)
   \<and> length (reference_windows book_text 1000 200) = 200
   \<and> length (progress_reports 200) = 40
   \<and> progress_reports 200 ! 22 = progress_report (min (5 * 23) 200) 200
   \<and> percentage (progress_reports 200 ! 22) = Num 57
   \<and> round (real (min (5 * 23) 200) / real 200 * 100) = (58 :: int)"
proof -
  have m: "min (5 * 23) 200 = (115::nat)" by simp
  have r: "round (real 115 / real 200 * 100) = (58 :: int)" by (simp add: round_def)
  show ?thesis
    unfolding m
    by (intro conjI create_book_text length_windows_book_text progress_reports_200_22 r)
       (simp_all add: length_progress_reports progress_reports_200_22 percentage_115_200)
qed

text \<open>
  Claim C1, as the code has it. When an embedding call of \<open>create\<close> rejects, \<open>create\<close>
  rejects and what the store held before is gone. The store is left with the entries
  of the batches that were completed before the batch of the first rejected call, in
  chunk order: it is empty, and a later search returns the empty list without calling
  the embedding function, when the first rejected call is among the first five; after
  that it holds a non-empty prefix of the document.
\<close>

theorem create_failure_keeps_completed_batches:
  assumes "issue_calls f (reference_windows text 1000 200) w = (ps, wN)"
    and "Rejected \<in> set ps"
  shows "\<exists>store' w' events.
           create this_store text f onProgress w = Some (Rejected, store', w', events)
         \<and> map chunk store'
             = take (completed_before (first_rejected ps)) (reference_windows text 1000 200)
         \<and> map (\<lambda>e. Resolved (embedding e)) store'
             = take (completed_before (first_rejected ps)) ps
         \<and> length store' = completed_before (first_rejected ps)
         \<and> (first_rejected ps < batchSize \<longrightarrow>
               store' = [] \<and> search store' query g topK v = (Resolved [], v))
         \<and> (batchSize \<le> first_rejected ps \<longrightarrow> store' \<noteq> [])"
proof -
  let ?chunks = "reference_windows text 1000 200"
  let ?d = "completed_before (first_rejected ps)"
  let ?store = "store_entries (take ?d ?chunks) (resolved_values (take ?d ps))"
  have lenps: "length ps = length ?chunks"
    using length_issue_calls [of f ?chunks w] assms(1) by simp
  have "?d \<le> first_rejected ps" by (simp add: completed_before_def)
  then have d: "?d < length ps" using first_rejected_less [OF assms(2)] by simp
  have len: "length (resolved_values (take ?d ps)) = length (take ?d ?chunks)"
    using resolved_before_first_rejected [of ps] d lenps
    by (simp add: length_resolved_values)
  have c: "map chunk ?store = take ?d ?chunks"
    using len by (rule map_chunk_store_entries)
  have "map embedding ?store = resolved_values (take ?d ps)"
    using len by (rule map_embedding_store_entries)
  then have "map Resolved (map embedding ?store) = take ?d ps"
    using resolved_before_first_rejected [of ps] by (simp add: map_Resolved_resolved_values)
  then have e: "map (\<lambda>e. Resolved (embedding e)) ?store = take ?d ps"
    by (simp add: comp_def)
  have l: "length ?store = ?d"
    using len d lenps by (simp add: length_store_entries)
  have small: "?store = [] \<and> search ?store query g topK v = (Resolved [], v)"
    if "first_rejected ps < batchSize"
  proof -
    have "?d = 0" using that by (simp add: completed_before_def)
    then have "?store = []" by simp
    then show ?thesis by (simp add: search_def)
  qed
  have large: "?store \<noteq> []" if "batchSize \<le> first_rejected ps"
  proof -
    have "0 < first_rejected ps div batchSize"
      using that by (simp add: div_greater_zero_iff batchSize_def)
    then have "0 < ?d" by (simp add: completed_before_def batchSize_def)
    then show ?thesis using l by auto
  qed
  show ?thesis
    using create_rejected [OF assms, of this_store onProgress] c e l small large
    by blast
qed

theorem create_failure_keeps_completed_batches_witness:
  "issue_calls (failing_from 0) (reference_windows ''hello'' 1000 200) 0 = ([Rejected], 1)
   \<and> Rejected \<in> set [Rejected :: vec promise]
   \<and> first_rejected [Rejected :: vec promise] < batchSize
   \<and> (\<exists>w' events. create first_batch_store ''hello'' (failing_from 0) True 0
                      = Some (Rejected, [], w', events))"
proof -
  have h1: "issue_calls (failing_from 0) (reference_windows ''hello'' 1000 200) 0
            = ([Rejected], 1)"
    by (simp add: reference_windows_hello failing_from_def)
  have h2: "Rejected \<in> set [Rejected :: vec promise]" by simp
  have h3: "first_rejected [Rejected :: vec promise] < batchSize"
    by (simp add: first_rejected_def batchSize_def)
  have "\<exists>w' events. create first_batch_store ''hello'' (failing_from 0) True 0
                      = Some (Rejected, [], w', events)"
    using create_failure_keeps_completed_batches
            [OF h1 h2, of first_batch_store True "''q''" "counting_stub [Num 1]" 3 0] h3
    by blast
  then show ?thesis using h1 h2 h3 by blast
qed

text \<open>
  The claim as stated fails when the first rejected call comes after the first batch:
  on \<open>long_text\<close>, with an embedding function that rejects its sixth call, \<open>create\<close>
  rejects and leaves the five entries of the first batch in the store, and a later
  search calls the embedding function and returns three of them.
\<close>

theorem create_failure_counterexample:
  "issue_calls (failing_from 5) (reference_windows long_text 1000 200) 0
     = ([Resolved [Num 1], Resolved [Num 1], Resolved [Num 1], Resolved [Num 1], Resolved [Num 1], Rejected], 6)
   \<and> create new_VectorStore long_text (failing_from 5) False 0
     = Some (Rejected, first_batch_store, 6, [])
   \<and> first_batch_store \<noteq> []
   \<and> search first_batch_store ''q'' (counting_stub [Num 1]) 3 0
     = (Resolved [long_chunk, long_chunk, long_chunk], 1)"
proof -
  have c: "create new_VectorStore long_text (failing_from 5) False 0
           = Some (Rejected, first_batch_store, 6, [])"
    using create_long_text_failing [of new_VectorStore False] by simp
  have ne: "first_batch_store \<noteq> []" by (simp add: first_batch_store_def)
  have call: "counting_stub [Num 1] ''q'' 0 = (Resolved [Num 1], 1)" by (simp add: counting_stub_def)
  have "search first_batch_store ''q'' (counting_stub [Num 1]) 3 0
        = (Resolved (map (\<lambda>i. chunk (first_batch_store ! i)) [0, 1, 2]), 1)"
    using search_ranking [of first_batch_store "counting_stub [Num 1]" "''q''" 0 "[Num 1]" 1 3] ne call
    by (simp add: ranking_first_batch slice_to_take)
  then have s: "search first_batch_store ''q'' (counting_stub [Num 1]) 3 0
                = (Resolved [long_chunk, long_chunk, long_chunk], 1)"
    by (simp add: first_batch_store_def)
  show ?thesis by (intro conjI calls_long_text_failing c ne s)
qed

text \<open>
  The claim on the short cut of the empty store, as stated, takes for empty every
  store on which \<open>create\<close> has never completed successfully. That fails after a
  \<open>create\<close> that rejected in its second batch: no \<open>create\<close> has completed on the store,
  it holds the five entries of the first batch, and a search calls the embedding
  function and returns a chunk.
\<close>

theorem search_after_failed_create_counterexample:
  "create new_VectorStore long_text (failing_from 5) False 0
     = Some (Rejected, first_batch_store, 6, [])
   \<and> length first_batch_store = 5
   \<and> search first_batch_store ''q'' (counting_stub [Num 1]) 1 0 = (Resolved [long_chunk], 1)"
proof -
  have c: "create new_VectorStore long_text (failing_from 5) False 0
           = Some (Rejected, first_batch_store, 6, [])"
    using create_long_text_failing [of new_VectorStore False] by simp
  have ne: "first_batch_store \<noteq> []" by (simp add: first_batch_store_def)
  have l: "length first_batch_store = 5" by (simp add: first_batch_store_def)
  have call: "counting_stub [Num 1] ''q'' 0 = (Resolved [Num 1], 1)"
    by (simp add: counting_stub_def)
  have "search first_batch_store ''q'' (counting_stub [Num 1]) 1 0
        = (Resolved (map (\<lambda>i. chunk (first_batch_store ! i)) [0]), 1)"
    using search_ranking
            [of first_batch_store "counting_stub [Num 1]" "''q''" 0 "[Num 1]" 1 1] ne call
    by (simp add: ranking_first_batch slice_to_take)
  then have s: "search first_batch_store ''q'' (counting_stub [Num 1]) 1 0
                = (Resolved [long_chunk], 1)"
    by (simp add: first_batch_store_def)
  show ?thesis by (intro conjI c l s)
qed

end
